theory Spec2Isabelle
  imports Main
begin

section \<open>Numbers in template literals\<close>

text \<open>
  A template literal \<^verbatim>\<open>`${n}`\<close> prints an integer in decimal. \<open>digit_char\<close> is the
  character of one decimal digit, \<open>string_of_nat\<close> prints a natural number and
  \<open>string_of_int\<close> puts the sign in front.
\<close>

definition digit_char :: "nat \<Rightarrow> char" where
  "digit_char d = ''0123456789'' ! d"

fun string_of_nat :: "nat \<Rightarrow> string" where
  "string_of_nat n =
     (if n < 10 then [digit_char n]
      else string_of_nat (n div 10) @ [digit_char (n mod 10)])"

declare string_of_nat.simps [simp del]

definition string_of_int :: "int \<Rightarrow> string" where
  "string_of_int i = (if i < 0 then CHR ''-'' # string_of_nat (nat (- i)) else string_of_nat (nat i))"

section \<open>JavaScript values\<close>

text \<open>
  A plan is data of the kind JSON carries, so a value is \<open>undefined\<close>, \<open>null\<close>, a
  boolean, a number, a string, an array or a plain object. An object is the list of its
  own properties in the order \<^verbatim>\<open>Object.keys\<close> and \<^verbatim>\<open>for ... in\<close> visit them; a
  property name occurs once. Numbers are integers here: the validator only compares a
  number with \<open>0\<close>. The values of a plan are plain data, as \<^verbatim>\<open>JSON.parse\<close> or an object
  literal makes them: the prototype of an object is \<^verbatim>\<open>Object.prototype\<close>.
\<close>

datatype jsval =
    JUndefined
  | JNull
  | JBool bool
  | JNum int
  | JStr string
  | JArr "jsval list"
  | JObj "(string \<times> jsval) list"

fun join :: "string \<Rightarrow> string list \<Rightarrow> string" where
  "join sep [] = []"
| "join sep [x] = x"
| "join sep (x # y # ys) = x @ sep @ join sep (y # ys)"

text \<open>\<open>truthy v\<close> is the condition \<^verbatim>\<open>if (v)\<close>.\<close>

fun truthy :: "jsval \<Rightarrow> bool" where
  "truthy JUndefined = False"
| "truthy JNull = False"
| "truthy (JBool b) = b"
| "truthy (JNum n) = (n \<noteq> 0)"
| "truthy (JStr s) = (s \<noteq> [])"
| "truthy (JArr xs) = True"
| "truthy (JObj kvs) = True"

text \<open>
  \<open>to_str v\<close> is the string a template literal \<^verbatim>\<open>`${v}`\<close> and a property key
  \<^verbatim>\<open>obj[v]\<close> make of \<open>v\<close>.
\<close>

fun to_str :: "jsval \<Rightarrow> string" where
  "to_str JUndefined = ''undefined''"
| "to_str JNull = ''null''"
| "to_str (JBool b) = (if b then ''true'' else ''false'')"
| "to_str (JNum n) = string_of_int n"
| "to_str (JStr s) = s"
| "to_str (JArr xs) =
     join '','' (map (\<lambda>x. if x = JUndefined \<or> x = JNull then [] else to_str x) xs)"
| "to_str (JObj kvs) = ''[object Object]''"

text \<open>
  \<open>get v k\<close> reads the property \<^verbatim>\<open>v.k\<close> (an absent property is \<open>undefined\<close>),
  \<open>has_key\<close> is \<^verbatim>\<open>k in v\<close>, \<open>keys\<close> is \<^verbatim>\<open>Object.keys(v)\<close>, which is also what
  \<^verbatim>\<open>for (const k in v)\<close> visits, and \<open>elements\<close> are the items of an array.
  The validator reads properties of objects only (the schema check comes first), so
  \<open>get\<close> needs no error case.
\<close>

fun get :: "jsval \<Rightarrow> string \<Rightarrow> jsval" where
  "get (JObj kvs) k = (case map_of kvs k of Some v \<Rightarrow> v | None \<Rightarrow> JUndefined)"
| "get v k = JUndefined"

fun has_key :: "string \<Rightarrow> jsval \<Rightarrow> bool" where
  "has_key k (JObj kvs) = (k \<in> set (map fst kvs))"
| "has_key k v = False"

fun keys :: "jsval \<Rightarrow> string list" where
  "keys (JObj kvs) = map fst kvs"
| "keys (JArr xs) = map string_of_nat [0 ..< length xs]"
| "keys (JStr s) = map string_of_nat [0 ..< length s]"
| "keys v = []"

fun elements :: "jsval \<Rightarrow> jsval list" where
  "elements (JArr xs) = xs"
| "elements v = []"

text \<open>
  The order in which an object enumerates its properties: the array indices (the
  decimal numerals without a leading zero, below \<open>2\<^sup>3\<^sup>2 - 1\<close>) come first, in ascending
  order, and the other names follow in the order of their creation. \<open>put_property\<close>
  adds a property \<open>x\<close>, whose name \<open>nm x\<close> the object does not have, at its place:
  after the properties it goes after, before the rest.
\<close>

definition is_digit :: "char \<Rightarrow> bool" where
  "is_digit c = (c \<in> set ''0123456789'')"

definition index_value :: "string \<Rightarrow> int" where
  "index_value s = foldl (\<lambda>n c. 10 * n + (of_char c - 48)) 0 s"

definition is_array_index :: "string \<Rightarrow> bool" where
  "is_array_index s =
     (s \<noteq> [] \<and> list_all is_digit s \<and> (hd s = CHR ''0'' \<longrightarrow> s = ''0'') \<and> index_value s < 2 ^ 32 - 1)"

definition goes_after :: "string \<Rightarrow> string \<Rightarrow> bool" where
  "goes_after k k' = (is_array_index k \<longrightarrow> is_array_index k' \<and> index_value k' < index_value k)"

definition put_property :: "('a \<Rightarrow> string) \<Rightarrow> 'a \<Rightarrow> 'a list \<Rightarrow> 'a list" where
  "put_property nm x xs =
     takeWhile (\<lambda>y. goes_after (nm x) (nm y)) xs @ x # dropWhile (\<lambda>y. goes_after (nm x) (nm y)) xs"

text \<open>
  The members every plain object inherits from \<^verbatim>\<open>Object.prototype\<close>. A lookup
  \<^verbatim>\<open>obj[k]\<close> that finds no own property \<open>k\<close> finds them: all are functions, but
  \<^verbatim>\<open>__proto__\<close>, which reads the prototype object, so the value found is truthy and has
  no property \<open>up\<close> or \<open>down\<close>. They are not enumerated. An assignment
  \<^verbatim>\<open>obj[k] = v\<close> makes an own property, except for \<^verbatim>\<open>__proto__\<close>: that one replaces the
  prototype when \<open>v\<close> is an object and does nothing when \<open>v\<close> is \<open>true\<close>.
\<close>

definition object_prototype_names :: "string list" where
  "object_prototype_names =
     [''constructor'', ''__defineGetter__'', ''__defineSetter__'', ''hasOwnProperty'',
      ''__lookupGetter__'', ''__lookupSetter__'', ''isPrototypeOf'', ''propertyIsEnumerable'',
      ''toString'', ''valueOf'', ''__proto__'', ''toLocaleString'']"

section \<open>The schema library\<close>

text \<open>
  \<^verbatim>\<open>validate-plan.ts\<close> declares its schemas with the zod library and calls
  \<^verbatim>\<open>parse\<close>. A schema is modelled by what \<^verbatim>\<open>parse\<close> reports: the list of issues, in
  the order zod finds them, for a value at a path; the value parses when the list is
  empty. An issue has zod's \<open>code\<close>, \<open>message\<close> and \<open>path\<close>. The repository's test
  \<^verbatim>\<open>throws error for step schema with invalid data\<close> fixes the messages.
\<close>

datatype path_elem = PKey string | PIndex nat

record issue =
  issue_code :: string
  issue_message :: string
  issue_path :: "path_elem list"

type_synonym schema = "path_elem list \<Rightarrow> jsval \<Rightarrow> issue list"

fun parsed_type :: "jsval \<Rightarrow> string" where
  "parsed_type JUndefined = ''undefined''"
| "parsed_type JNull = ''null''"
| "parsed_type (JBool b) = ''boolean''"
| "parsed_type (JNum n) = ''number''"
| "parsed_type (JStr s) = ''string''"
| "parsed_type (JArr xs) = ''array''"
| "parsed_type (JObj kvs) = ''object''"

definition invalid_type :: "string \<Rightarrow> path_elem list \<Rightarrow> jsval \<Rightarrow> issue" where
  "invalid_type expected p v =
     \<lparr> issue_code = ''invalid_type'',
       issue_message =
         (if v = JUndefined then ''Required''
          else ''Expected '' @ expected @ '', received '' @ parsed_type v),
       issue_path = p \<rparr>"

definition z_any :: schema where
  "z_any p v = []"

definition z_string :: schema where
  "z_string p v = (case v of JStr s \<Rightarrow> [] | _ \<Rightarrow> [invalid_type ''string'' p v])"

definition z_string_min :: "nat \<Rightarrow> string \<Rightarrow> schema" where
  "z_string_min n msg p v =
     (case v of
        JStr s \<Rightarrow>
          if length s < n
          then [\<lparr> issue_code = ''too_small'', issue_message = msg, issue_path = p \<rparr>]
          else []
      | _ \<Rightarrow> [invalid_type ''string'' p v])"

definition z_number_min :: "int \<Rightarrow> string \<Rightarrow> schema" where
  "z_number_min lo msg p v =
     (case v of
        JNum x \<Rightarrow>
          if x < lo
          then [\<lparr> issue_code = ''too_small'', issue_message = msg, issue_path = p \<rparr>]
          else []
      | _ \<Rightarrow> [invalid_type ''number'' p v])"

definition z_boolean :: schema where
  "z_boolean p v = (case v of JBool b \<Rightarrow> [] | _ \<Rightarrow> [invalid_type ''boolean'' p v])"

definition z_optional :: "schema \<Rightarrow> schema" where
  "z_optional s p v = (if v = JUndefined then [] else s p v)"

text \<open>
  A union parses when one of its options does; otherwise it reports the one issue
  \<open>invalid_union\<close>. (The options of the only union here, a string and a record of
  anything, have no refinement, so zod's rule for an option that fails a refinement
  only never applies.)
\<close>

definition z_union :: "schema list \<Rightarrow> schema" where
  "z_union options p v =
     (if list_ex (\<lambda>s. s p v = []) options then []
      else [\<lparr> issue_code = ''invalid_union'', issue_message = ''Invalid input'', issue_path = p \<rparr>])"

definition z_record :: "schema \<Rightarrow> schema \<Rightarrow> schema" where
  "z_record key_schema value_schema p v =
     (case v of
        JObj kvs \<Rightarrow>
          concat (map (\<lambda>(k, x). key_schema (p @ [PKey k]) (JStr k) @ value_schema (p @ [PKey k]) x) kvs)
      | _ \<Rightarrow> [invalid_type ''object'' p v])"

text \<open>
  An object schema parses every key of its shape, in the shape's order, and keeps all
  the issues; an array schema does so for every item. Keys outside the shape are
  ignored (zod's default).
\<close>

definition z_object :: "(string \<times> schema) list \<Rightarrow> schema" where
  "z_object shape p v =
     (case v of
        JObj kvs \<Rightarrow> concat (map (\<lambda>(k, s). s (p @ [PKey k]) (get v k)) shape)
      | _ \<Rightarrow> [invalid_type ''object'' p v])"

definition z_array :: "schema \<Rightarrow> schema" where
  "z_array s p v =
     (case v of
        JArr xs \<Rightarrow> concat (map (\<lambda>(i, x). s (p @ [PIndex i]) x) (enumerate 0 xs))
      | _ \<Rightarrow> [invalid_type ''array'' p v])"

section \<open>The schemas of validate-plan.ts\<close>

definition stepSchema :: schema where
  "stepSchema =
     z_object
       [ (''id'', z_optional z_string),
         (''name'', z_optional (z_string_min 3 ''Name must be at least 3 characters long'')),
         (''next'', z_optional (z_union [z_string, z_record z_string z_any])),
         (''previous'', z_optional z_any),
         (''adaptor'', z_optional (z_string_min 3 ''Adaptor must be at least 3 characters long'')),
         (''expression'', z_optional z_string),
         (''state'', z_optional z_any),
         (''configuration'', z_optional z_any),
         (''linker'', z_optional z_any) ]"

definition executionPlanSchema :: schema where
  "executionPlanSchema =
     z_object
       [ (''options'',
            z_object
              [ (''timeout'', z_optional (z_number_min 0 ''Timeout must be a non-negative number'')),
                (''stepTimeout'', z_optional (z_number_min 0 ''Step timeout must be a non-negative number'')),
                (''start'', z_optional z_string),
                (''end'', z_optional z_string),
                (''sanitize'', z_optional z_boolean) ]),
         (''workflow'', z_object [ (''steps'', z_array stepSchema) ]) ]"

record formatted_error =
  fe_code :: string
  fe_message :: string
  fe_path :: string

fun path_elem_str :: "path_elem \<Rightarrow> string" where
  "path_elem_str (PKey k) = k"
| "path_elem_str (PIndex i) = string_of_nat i"

definition formatZodErrors :: "issue list \<Rightarrow> formatted_error list" where
  "formatZodErrors errors =
     map (\<lambda>e. \<lparr> fe_code = issue_code e, fe_message = issue_message e,
                fe_path = join ''.'' (map path_elem_str (issue_path e)) \<rparr>) errors"

definition formattedErrorsToString :: "formatted_error list \<Rightarrow> string" where
  "formattedErrorsToString formattedErrors =
     join [CHR 0x0A] (map (\<lambda>e. fe_path e @ '': '' @ fe_message e) formattedErrors)"

section \<open>The dependency model\<close>

text \<open>
  \<^verbatim>\<open>validate\<close> raises \<^verbatim>\<open>ValidationError\<close> with a message. A \<^verbatim>\<open>TypeError\<close> is what
  reading or setting a property of \<open>undefined\<close> raises. A model node has the key sets
  \<open>up\<close> and \<open>down\<close> (objects whose values are all \<open>true\<close>, so the list of their
  keys); the model is the object of the nodes, here the list of its own properties. Both
  are in the order of enumeration.
\<close>

datatype error = ValidationError string | TypeError

record ModelNode =
  up :: "string list"
  down :: "string list"

type_synonym Model = "(string \<times> ModelNode) list"

definition quoted :: "string \<Rightarrow> string" where
  "quoted s = CHR 0x27 # s @ [CHR 0x27]"

text \<open>
  \<open>add_key ks k\<close> is the assignment \<^verbatim>\<open>ks[k] = true\<close> to a key set, which does nothing
  for the key \<^verbatim>\<open>__proto__\<close>.
\<close>

definition add_key :: "string list \<Rightarrow> string \<Rightarrow> string list" where
  "add_key ks k = (if k \<in> set ks \<or> k = ''__proto__'' then ks else put_property (\<lambda>k. k) k ks)"

text \<open>
  What \<open>ensureModel\<close> returns and what \<open>node\<close> is in the loop over the steps: the node
  of the model with that key (an alias into the model: the caller's assignments change
  the model), the object \<^verbatim>\<open>{ up: {}, down: {} }\<close> that a step without an id gets for
  itself, or a member that the model object inherits.
\<close>

datatype node_ref = Node string | Local | Inherited

text \<open>
  \<open>ensureModel\<close> adds an empty node when \<^verbatim>\<open>model[jobId]\<close> is falsy, and returns
  \<^verbatim>\<open>model[jobId]\<close>. For the name of an inherited member the lookup finds the member:
  no node is added and the member is returned.
\<close>

definition ensureModel :: "Model \<Rightarrow> string \<Rightarrow> Model \<times> node_ref" where
  "ensureModel model jobId =
     (if map_of model jobId \<noteq> None then (model, Node jobId)
      else if jobId \<in> set object_prototype_names then (model, Inherited)
      else (put_property fst (jobId, \<lparr> up = [], down = [] \<rparr>) model, Node jobId))"

definition update_node :: "Model \<Rightarrow> string \<Rightarrow> (ModelNode \<Rightarrow> ModelNode) \<Rightarrow> Model" where
  "update_node model jobId f = map (\<lambda>(k, n). if k = jobId then (k, f n) else (k, n)) model"

text \<open>
  The assignments \<^verbatim>\<open>node.down[k] = true\<close> and \<^verbatim>\<open>node.up[k] = true\<close>. An inherited
  member has no \<open>down\<close> and no \<open>up\<close>, and setting a property of \<open>undefined\<close> raises
  a \<open>TypeError\<close>.
\<close>

fun set_down :: "Model \<Rightarrow> node_ref \<Rightarrow> string \<Rightarrow> error + Model" where
  "set_down model (Node jobId) k = Inr (update_node model jobId (\<lambda>n. n\<lparr> down := add_key (down n) k \<rparr>))"
| "set_down model Local k = Inr model"
| "set_down model Inherited k = Inl TypeError"

fun set_up :: "Model \<Rightarrow> node_ref \<Rightarrow> string \<Rightarrow> error + Model" where
  "set_up model (Node jobId) k = Inr (update_node model jobId (\<lambda>n. n\<lparr> up := add_key (up n) k \<rparr>))"
| "set_up model Local k = Inr model"
| "set_up model Inherited k = Inl TypeError"

text \<open>
  The lookup table \<open>jobIdx\<close> of the steps that have a (non-empty) id, a plain object:
  its own properties (a later step wins) and its prototype (\<open>None\<close> is
  \<^verbatim>\<open>Object.prototype\<close>). \<open>set_job\<close> is the assignment \<^verbatim>\<open>obj[item.id] = item\<close>.
  With the id \<^verbatim>\<open>__proto__\<close> the step becomes the prototype of the table, unless the
  table has that name as a property already, its own or one of a step that is its
  prototype (data read by \<^verbatim>\<open>JSON.parse\<close> can have one): then the assignment makes or
  changes the own property, as for any other name.
\<close>

record JobIndex =
  own_jobs :: "string \<rightharpoonup> jsval"
  jobs_prototype :: "jsval option"

definition set_job :: "JobIndex \<Rightarrow> string \<Rightarrow> jsval \<Rightarrow> JobIndex" where
  "set_job obj k item =
     (if k = ''__proto__'' \<and> own_jobs obj k = None
         \<and> (case jobs_prototype obj of Some step \<Rightarrow> \<not> has_key k step | None \<Rightarrow> True)
      then obj\<lparr> jobs_prototype := Some item \<rparr>
      else obj\<lparr> own_jobs := (own_jobs obj)(k \<mapsto> item) \<rparr>)"

definition jobIdx :: "jsval list \<Rightarrow> JobIndex" where
  "jobIdx steps =
     foldl (\<lambda>obj item. if truthy (get item ''id'') then set_job obj (to_str (get item ''id'')) item else obj)
       \<lparr> own_jobs = Map.empty, jobs_prototype = None \<rparr> steps"

text \<open>
  \<open>job_found idx jobId\<close> is the condition that \<^verbatim>\<open>jobIdx[jobId]\<close> is truthy: an own
  property, else a property of the step that is the prototype, else an inherited member.
\<close>

definition job_found :: "JobIndex \<Rightarrow> string \<Rightarrow> bool" where
  "job_found idx jobId =
     (case own_jobs idx jobId of
        Some item \<Rightarrow> truthy item
      | None \<Rightarrow>
          (case jobs_prototype idx of
             Some step \<Rightarrow>
               if has_key jobId step then truthy (get step jobId)
               else jobId \<in> set object_prototype_names
           | None \<Rightarrow> jobId \<in> set object_prototype_names))"

definition validateJob :: "JobIndex \<Rightarrow> string \<Rightarrow> error + unit" where
  "validateJob idx jobId =
     (if job_found idx jobId then Inr ()
      else Inl (ValidationError (''Cannot find job: '' @ jobId)))"

text \<open>A loop whose body may raise: the first error ends it.\<close>

fun foldE :: "('s \<Rightarrow> 'a \<Rightarrow> error + 's) \<Rightarrow> 's \<Rightarrow> 'a list \<Rightarrow> error + 's" where
  "foldE f s [] = Inr s"
| "foldE f s (x # xs) = (case f s x of Inl e \<Rightarrow> Inl e | Inr s' \<Rightarrow> foldE f s' xs)"

text \<open>
  The body of \<^verbatim>\<open>for (const nextId in job.next)\<close> for the step with id \<open>jid\<close>
  (\<open>undefined\<close> for a step without one) and its \<open>node\<close>: the target is looked up, the
  down edge goes into the step's node, the target gets a node, and its up edge only from
  a step with an id.
\<close>

definition link_next :: "JobIndex \<Rightarrow> jsval \<Rightarrow> node_ref \<Rightarrow> Model \<Rightarrow> string \<Rightarrow> error + Model" where
  "link_next idx jid node model nextId =
     (case validateJob idx nextId of
        Inl e \<Rightarrow> Inl e
      | Inr _ \<Rightarrow>
          (case set_down model node nextId of
             Inl e \<Rightarrow> Inl e
           | Inr m1 \<Rightarrow>
               (case ensureModel m1 nextId of
                  (m2, nextNode) \<Rightarrow> if truthy jid then set_up m2 nextNode (to_str jid) else Inr m2)))"

text \<open>The body of \<^verbatim>\<open>for (const job of workflow.steps)\<close>.\<close>

definition visit_job :: "JobIndex \<Rightarrow> Model \<Rightarrow> jsval \<Rightarrow> error + Model" where
  "visit_job idx model job =
     (let jid = get job ''id''
      in case (if truthy jid then ensureModel model (to_str jid) else (model, Local)) of
           (m0, node) \<Rightarrow>
             (case get job ''next'' of
                JStr s \<Rightarrow> (case validateJob idx s of Inl e \<Rightarrow> Inl e | Inr _ \<Rightarrow> Inr m0)
              | nxt \<Rightarrow> foldE (link_next idx jid node) m0 (keys nxt)))"

definition plan_steps :: "jsval \<Rightarrow> jsval list" where
  "plan_steps plan = elements (get (get plan ''workflow'') ''steps'')"

definition requiredKeys :: "string list" where
  "requiredKeys = [''name'', ''id'', ''adaptor'', ''configuration'']"

definition buildModel_warnings :: "jsval list \<Rightarrow> string list" where
  "buildModel_warnings steps =
     (if steps = []
      then [''[Validation Warning]: The steps array is empty. There are no jobs to execute.'']
      else [])
     @ concat (map (\<lambda>(index, step).
         if list_ex (\<lambda>key. key \<in> set (keys step)) requiredKeys then []
         else [''[Validation Warning]: The step at index '' @ string_of_nat index
               @ '' is considered empty or invalid as it lacks required properties.''])
       (enumerate 0 steps))"

text \<open>\<open>buildModel\<close> returns the warnings it printed and the model, or the error it raised.\<close>

definition buildModel :: "jsval \<Rightarrow> string list \<times> (error + Model)" where
  "buildModel plan =
     (let steps = plan_steps plan
      in (buildModel_warnings steps, foldE (visit_job (jobIdx steps)) [] steps))"

section \<open>The assertions\<close>

definition assertStart :: "jsval \<Rightarrow> error + unit" where
  "assertStart plan =
     (case get (get plan ''options'') ''start'' of
        JStr start \<Rightarrow>
          if list_ex (\<lambda>step. get step ''id'' = JStr start) (plan_steps plan) then Inr ()
          else Inl (ValidationError (''Could not find start job: '' @ start))
      | _ \<Rightarrow> Inr ())"

text \<open>
  The search of \<open>assertNoCircularReferences\<close> calls itself for every key of the stream
  and keeps no record of the nodes it has seen, so it need not return. The first
  argument bounds the depth of the nested calls: \<open>None\<close> is a search that has not
  returned within it. A search returns when some depth gives \<open>Some\<close>. Where the model
  has no node \<open>frm\<close>, \<^verbatim>\<open>model[from]\<close> is \<open>undefined\<close> and reading its stream raises a
  \<open>TypeError\<close>, or it is an inherited member, whose stream is \<open>undefined\<close>: a loop over
  nothing.
\<close>

datatype stream_key = Up | Down

fun stream :: "stream_key \<Rightarrow> ModelNode \<Rightarrow> string list" where
  "stream Up node = up node"
| "stream Down node = down node"

fun for_in :: "string list \<Rightarrow> (string \<Rightarrow> (error + unit) option) \<Rightarrow> (error + unit) option" where
  "for_in [] body = Some (Inr ())"
| "for_in (k # ks) body =
     (case body k of
        None \<Rightarrow> None
      | Some (Inl e) \<Rightarrow> Some (Inl e)
      | Some (Inr _) \<Rightarrow> for_in ks body)"

fun search :: "nat \<Rightarrow> Model \<Rightarrow> string \<Rightarrow> string \<Rightarrow> stream_key \<Rightarrow> (error + unit) option" where
  "search 0 model frm targetId key = None"
| "search (Suc depth) model frm targetId key =
     (case map_of model frm of
        None \<Rightarrow> if frm \<in> set object_prototype_names then Some (Inr ()) else Some (Inl TypeError)
      | Some node \<Rightarrow>
          for_in (stream key node)
            (\<lambda>nextId.
               if nextId = targetId
               then Some (Inl (ValidationError (''Circular dependency: '' @ frm @ '' <-> '' @ targetId)))
               else search depth model nextId targetId key))"

definition assertNoCircularReferences :: "nat \<Rightarrow> Model \<Rightarrow> (error + unit) option" where
  "assertNoCircularReferences depth model =
     for_in (map fst model) (\<lambda>nodeId. search depth model nodeId nodeId Down)"

definition assertSingletonDependencies :: "Model \<Rightarrow> error + unit" where
  "assertSingletonDependencies model =
     (case find (\<lambda>(nodeId, node). length (up node) > 1) model of
        Some (nodeId, node) \<Rightarrow> Inl (ValidationError (''Multiple dependencies detected for: '' @ nodeId))
      | None \<Rightarrow> Inr ())"

definition validKeys :: "string list" where
  "validKeys = [''id'', ''name'', ''next'', ''previous'', ''adaptor'', ''expression'', ''state'',
                ''configuration'', ''linker'']"

text \<open>The body of the \<^verbatim>\<open>forEach\<close> of \<open>assertStepKeys\<close>, for one step.\<close>

definition check_step_keys :: "jsval \<Rightarrow> error + unit" where
  "check_step_keys step =
     (if has_key ''adaptor'' step \<and> truthy (get step ''adaptor'') \<and> \<not> truthy (get step ''expression'')
      then Inl (ValidationError (''Step with adaptor '' @ quoted (to_str (get step ''adaptor''))
                  @ '' must have an expression. Step id: '' @ quoted (to_str (get step ''id'')) @ ''.''))
      else case find (\<lambda>key. key \<notin> set validKeys) (keys step) of
             Some key \<Rightarrow>
               Inl (ValidationError (''Invalid key '' @ quoted key @ '' found in step with id ''
                      @ quoted (to_str (get step ''id'')) @ ''.''))
           | None \<Rightarrow> Inr ())"

fun first_error :: "('a \<Rightarrow> error + unit) \<Rightarrow> 'a list \<Rightarrow> error + unit" where
  "first_error f [] = Inr ()"
| "first_error f (x # xs) = (case f x of Inl e \<Rightarrow> Inl e | Inr _ \<Rightarrow> first_error f xs)"

definition assertStepKeys :: "jsval \<Rightarrow> error + unit" where
  "assertStepKeys plan = first_error check_step_keys (plan_steps plan)"

definition validOptionsKeys :: "string list" where
  "validOptionsKeys = [''timeout'', ''stepTimeout'', ''start'', ''end'', ''sanitize'']"

text \<open>\<open>assertValidOptions\<close> only warns: the result is the list of warnings.\<close>

definition assertValidOptions :: "jsval \<Rightarrow> string list" where
  "assertValidOptions options =
     map (\<lambda>key. ''Warning: Unrecognized option '' @ quoted key)
       (filter (\<lambda>key. key \<notin> set validOptionsKeys) (keys options))"

text \<open>
  The loop of \<open>assertValidStepIds\<close>, with the set \<open>ids\<close> of the ids seen so far. The
  set holds \<^verbatim>\<open>step.id\<close> as it is, \<open>undefined\<close> included. (A \<^verbatim>\<open>Set\<close> compares strings
  and \<open>undefined\<close> by value, and after the schema check an id is nothing else.)
\<close>

fun check_ids :: "jsval list \<Rightarrow> jsval list \<Rightarrow> error + unit" where
  "check_ids ids [] = Inr ()"
| "check_ids ids (step # steps) =
     (if get step ''id'' \<in> set ids
      then Inl (ValidationError (''Duplicate step ID detected: '' @ to_str (get step ''id'')))
      else check_ids (ids @ [get step ''id'']) steps)"

definition assertValidStepIds :: "jsval list \<Rightarrow> error + unit" where
  "assertValidStepIds steps = check_ids [] steps"

definition assertUnreferencedSteps :: "Model \<Rightarrow> string list" where
  "assertUnreferencedSteps model =
     (let referencedSteps = concat (map (\<lambda>(nodeId, node). up node @ down node) model)
      in map (\<lambda>(nodeId, node). ''[Validation Warning]: Unreferenced step detected: '' @ nodeId)
           (filter (\<lambda>(nodeId, node). nodeId \<notin> set referencedSteps \<and> down node = []) model))"

section \<open>validate\<close>

text \<open>
  The default export. The result is the list of warnings printed, with what the call
  did: \<open>Some (Inr True)\<close> when it returned \<open>true\<close>, \<open>Some (Inl e)\<close> when it raised
  \<open>e\<close>, \<open>None\<close> when the cycle search did not return within \<open>depth\<close> nested calls.
\<close>

definition validate :: "nat \<Rightarrow> jsval \<Rightarrow> string list \<times> (error + bool) option" where
  "validate depth plan =
     (case executionPlanSchema [] plan of
        issue # issues \<Rightarrow>
          ([], Some (Inl (ValidationError (formattedErrorsToString (formatZodErrors (issue # issues))))))
      | [] \<Rightarrow>
     (case assertStart plan of
        Inl e \<Rightarrow> ([], Some (Inl e))
      | Inr _ \<Rightarrow>
     (case buildModel plan of
        (w1, Inl e) \<Rightarrow> (w1, Some (Inl e))
      | (w1, Inr model) \<Rightarrow>
     (case assertNoCircularReferences depth model of
        None \<Rightarrow> (w1, None)
      | Some (Inl e) \<Rightarrow> (w1, Some (Inl e))
      | Some (Inr _) \<Rightarrow>
     (case assertSingletonDependencies model of
        Inl e \<Rightarrow> (w1, Some (Inl e))
      | Inr _ \<Rightarrow>
     (case assertStepKeys plan of
        Inl e \<Rightarrow> (w1, Some (Inl e))
      | Inr _ \<Rightarrow>
     (let w2 = assertValidOptions (get plan ''options'')
      in case assertValidStepIds (plan_steps plan) of
           Inl e \<Rightarrow> (w1 @ w2, Some (Inl e))
         | Inr _ \<Rightarrow> (w1 @ w2 @ assertUnreferencedSteps model, Some (Inr True)))))))))"

section \<open>The edges of the dependency model\<close>

text \<open>
  \<open>stream_edges key model\<close> is the graph the model holds in one direction: the pairs
  \<open>(a, b)\<close> with \<open>b\<close> a key of \<^verbatim>\<open>model[a][key]\<close>. A model is closed when every
  neighbour has a node of its own. \<open>step_targets\<close> are the keys of a mapping-form
  \<^verbatim>\<open>next\<close> (none for a string-form one) and \<open>step_edges\<close> the edges from a step that
  has an id to its targets.
\<close>

definition stream_edges :: "stream_key \<Rightarrow> Model \<Rightarrow> (string \<times> string) set" where
  "stream_edges key model = {(a, b). \<exists>node. map_of model a = Some node \<and> b \<in> set (stream key node)}"

definition closed_model :: "stream_key \<Rightarrow> Model \<Rightarrow> bool" where
  "closed_model key model = (\<forall>a b. (a, b) \<in> stream_edges key model \<longrightarrow> map_of model b \<noteq> None)"

text \<open>The part of a graph that can be reached from \<open>x\<close>: the edges that leave a node reachable from \<open>x\<close>.\<close>

definition part_from :: "(string \<times> string) set \<Rightarrow> string \<Rightarrow> (string \<times> string) set" where
  "part_from E x = {(a, b). (a, b) \<in> E \<and> (x, a) \<in> E\<^sup>*}"

definition step_targets :: "jsval \<Rightarrow> string list" where
  "step_targets job = (case get job ''next'' of JStr s \<Rightarrow> [] | nxt \<Rightarrow> keys nxt)"

definition step_edges :: "jsval \<Rightarrow> (string \<times> string) set" where
  "step_edges job =
     (if truthy (get job ''id'') then {to_str (get job ''id'')} \<times> set (step_targets job) else {})"

text \<open>
  A model is tidy when no id has two nodes and no key set lists a key twice, as it is
  for objects; it is clean when no node has the name of an inherited member.
  \<open>buildModel\<close> keeps models tidy and clean.
\<close>

definition tidy_model :: "Model \<Rightarrow> bool" where
  "tidy_model m = (distinct (map fst m) \<and> list_all (\<lambda>(k, n). distinct (up n) \<and> distinct (down n)) m)"

definition clean_model :: "Model \<Rightarrow> bool" where
  "clean_model m = (\<forall>k. map_of m k \<noteq> None \<longrightarrow> k \<notin> set object_prototype_names)"

lemma set_put_property: "set (put_property nm x xs) = insert x (set xs)"
proof -
  let ?P = "\<lambda>y. goes_after (nm x) (nm y)"
  have "set (takeWhile ?P xs @ dropWhile ?P xs) = set xs"
    by simp
  then have "set (takeWhile ?P xs) \<union> set (dropWhile ?P xs) = set xs"
    by (simp only: set_append)
  then show ?thesis
    by (auto simp: put_property_def)
qed

lemma map_of_put_property:
  assumes "map_of m k = None"
  shows "map_of (put_property fst (k, v) m) a = (if a = k then Some v else map_of m a)"
proof -
  let ?P = "\<lambda>y. goes_after k (fst y)"
  from assms have "k \<notin> fst ` set m"
    by (simp add: map_of_eq_None_iff)
  then have "k \<notin> fst ` set (takeWhile ?P m)" "k \<notin> fst ` set (dropWhile ?P m)"
    by (auto dest: set_takeWhileD set_dropWhileD)
  then have none: "map_of (takeWhile ?P m) k = None" "map_of (dropWhile ?P m) k = None"
    by (simp_all only: map_of_eq_None_iff not_False_eq_True)
  have "map_of m a = map_of (takeWhile ?P m @ dropWhile ?P m) a"
    by simp
  also have "\<dots> = (map_of (dropWhile ?P m) ++ map_of (takeWhile ?P m)) a"
    by (simp only: map_of_append)
  finally have m_a: "map_of m a = (map_of (dropWhile ?P m) ++ map_of (takeWhile ?P m)) a" .
  have "map_of (put_property fst (k, v) m) a
          = (map_of ((k, v) # dropWhile ?P m) ++ map_of (takeWhile ?P m)) a"
    by (simp only: put_property_def map_of_append fst_conv)
  also have "\<dots> = (if a = k then Some v else (map_of (dropWhile ?P m) ++ map_of (takeWhile ?P m)) a)"
    using none by (simp add: map_add_def split: option.splits)
  finally show ?thesis
    by (simp only: m_a)
qed

lemma distinct_put_property:
  assumes "distinct (map nm xs)" and "nm x \<notin> nm ` set xs"
  shows "distinct (map nm (put_property nm x xs))"
proof -
  let ?P = "\<lambda>y. goes_after (nm x) (nm y)"
  have "map nm (takeWhile ?P xs) @ map nm (dropWhile ?P xs) = map nm xs"
    by (simp flip: map_append)
  with assms(1) have "distinct (map nm (takeWhile ?P xs) @ map nm (dropWhile ?P xs))"
    by (simp only:)
  then have parts: "distinct (map nm (takeWhile ?P xs))" "distinct (map nm (dropWhile ?P xs))"
    "set (map nm (takeWhile ?P xs)) \<inter> set (map nm (dropWhile ?P xs)) = {}"
    by (simp_all only: distinct_append)
  have fresh: "nm x \<notin> set (map nm (takeWhile ?P xs))" "nm x \<notin> set (map nm (dropWhile ?P xs))"
    using assms(2) by (auto dest: set_takeWhileD set_dropWhileD)
  have "map nm (put_property nm x xs) = map nm (takeWhile ?P xs) @ nm x # map nm (dropWhile ?P xs)"
    by (simp add: put_property_def)
  then show ?thesis
    using parts fresh by (simp only: distinct_append distinct.simps set_simps) blast
qed

lemma proto_inherited: "''__proto__'' \<in> set object_prototype_names"
  by (simp add: object_prototype_names_def)

lemma set_add_key: "k \<noteq> ''__proto__'' \<Longrightarrow> set (add_key ks k) = insert k (set ks)"
  by (auto simp: add_key_def set_put_property)

lemma distinct_add_key: "distinct ks \<Longrightarrow> distinct (add_key ks k)"
  using distinct_put_property [of "\<lambda>k. k" ks k] by (simp add: add_key_def)

lemma map_of_update_node:
  "map_of (update_node m k f) a = (if a = k then map_option f (map_of m a) else map_of m a)"
  by (induction m) (auto simp: update_node_def)

lemma has_node_update_node: "map_of (update_node m k f) a = None \<longleftrightarrow> map_of m a = None"
  by (simp add: map_of_update_node)

lemma clean_update_node: "clean_model (update_node m k f) = clean_model m"
  by (simp add: clean_model_def has_node_update_node)

lemma down_edges_add_down:
  "t \<noteq> ''__proto__'' \<Longrightarrow>
   stream_edges Down (update_node m j (\<lambda>n. n\<lparr> down := add_key (down n) t \<rparr>)) =
     (if map_of m j = None then stream_edges Down m else insert (j, t) (stream_edges Down m))"
  by (auto simp: stream_edges_def map_of_update_node set_add_key split: if_splits)

lemma up_edges_add_down:
  "stream_edges Up (update_node m j (\<lambda>n. n\<lparr> down := add_key (down n) t \<rparr>)) = stream_edges Up m"
  by (auto simp: stream_edges_def map_of_update_node split: if_splits)

lemma up_edges_add_up:
  "t \<noteq> ''__proto__'' \<Longrightarrow>
   stream_edges Up (update_node m j (\<lambda>n. n\<lparr> up := add_key (up n) t \<rparr>)) =
     (if map_of m j = None then stream_edges Up m else insert (j, t) (stream_edges Up m))"
  by (auto simp: stream_edges_def map_of_update_node set_add_key split: if_splits)

lemma down_edges_add_up:
  "stream_edges Down (update_node m j (\<lambda>n. n\<lparr> up := add_key (up n) t \<rparr>)) = stream_edges Down m"
  by (auto simp: stream_edges_def map_of_update_node split: if_splits)

lemma tidy_update_node:
  assumes "tidy_model m" and "\<And>n. distinct (up n) \<and> distinct (down n) \<Longrightarrow> distinct (up (f n)) \<and> distinct (down (f n))"
  shows "tidy_model (update_node m k f)"
proof -
  have "map fst (update_node m k f) = map fst m"
    by (induction m) (auto simp: update_node_def)
  moreover have "list_all (\<lambda>(k, n). distinct (up n) \<and> distinct (down n)) (update_node m k f)"
    using assms by (fastforce simp: tidy_model_def update_node_def list_all_iff split: if_splits)
  ultimately show ?thesis
    using assms(1) by (simp add: tidy_model_def)
qed

text \<open>What \<open>ensureModel\<close> does to a model, and what it returns.\<close>

lemma map_of_new_node:
  assumes "map_of m k = None"
  shows "map_of (put_property fst (k, \<lparr> up = [], down = [] \<rparr>) m) a
           = (if a = k then Some \<lparr> up = [], down = [] \<rparr> else map_of m a)"
  using assms by (rule map_of_put_property)

lemma edges_new_node:
  assumes "map_of m k = None"
  shows "stream_edges key (put_property fst (k, \<lparr> up = [], down = [] \<rparr>) m) = stream_edges key m"
  using assms by (cases key) (auto simp: stream_edges_def map_of_new_node split: if_splits)

lemma tidy_new_node:
  assumes "tidy_model m" and "map_of m k = None"
  shows "tidy_model (put_property fst (k, \<lparr> up = [], down = [] \<rparr>) m)"
proof -
  from assms(2) have "fst (k, \<lparr> up = [], down = [] \<rparr>) \<notin> fst ` set m"
    by (simp add: map_of_eq_None_iff)
  moreover from assms(1) have "distinct (map fst m)"
    by (simp add: tidy_model_def)
  ultimately have "distinct (map fst (put_property fst (k, \<lparr> up = [], down = [] \<rparr>) m))"
    by (intro distinct_put_property)
  moreover have "list_all (\<lambda>(k, n). distinct (up n) \<and> distinct (down n))
                   (put_property fst (k, \<lparr> up = [], down = [] \<rparr>) m)"
    using assms(1) by (simp add: tidy_model_def list_all_iff set_put_property)
  ultimately show ?thesis
    by (simp add: tidy_model_def)
qed

lemma ensureModel_effect:
  assumes "ensureModel m k = (m', r)"
  shows "stream_edges key m' = stream_edges key m"
    and "map_of m a \<noteq> None \<Longrightarrow> map_of m' a \<noteq> None"
    and "clean_model m \<Longrightarrow> clean_model m'"
    and "tidy_model m \<Longrightarrow> tidy_model m'"
    and "r \<noteq> Local"
    and "r \<noteq> Inherited \<Longrightarrow> r = Node k \<and> map_of m' k \<noteq> None"
    and "clean_model m \<Longrightarrow> r \<noteq> Inherited \<Longrightarrow> k \<notin> set object_prototype_names"
proof -
  consider (old) "map_of m k \<noteq> None" "m' = m" "r = Node k"
    | (member) "map_of m k = None" "k \<in> set object_prototype_names" "m' = m" "r = Inherited"
    | (new) "map_of m k = None" "k \<notin> set object_prototype_names"
        "m' = put_property fst (k, \<lparr> up = [], down = [] \<rparr>) m" "r = Node k"
    using assms by (auto simp: ensureModel_def split: if_splits)
  note cases = this
  show "stream_edges key m' = stream_edges key m"
    by (cases rule: cases) (simp_all add: edges_new_node)
  show "map_of m' a \<noteq> None" if "map_of m a \<noteq> None"
    using that by (cases rule: cases) (auto simp: map_of_new_node)
  show "clean_model m'" if "clean_model m"
    using that by (cases rule: cases) (auto simp: clean_model_def map_of_new_node split: if_splits)
  show "tidy_model m'" if "tidy_model m"
    using that by (cases rule: cases) (simp_all add: tidy_new_node)
  show "r \<noteq> Local"
    by (cases rule: cases) simp_all
  show "r = Node k \<and> map_of m' k \<noteq> None" if "r \<noteq> Inherited"
    using that by (cases rule: cases) (simp_all add: map_of_new_node)
  show "k \<notin> set object_prototype_names" if "clean_model m" "r \<noteq> Inherited"
    using that by (cases rule: cases) (auto simp: clean_model_def)
qed

text \<open>
  One turn of the loop over the keys of \<^verbatim>\<open>next\<close> that raises nothing: from a step with
  an id, whose node is in the model, the edge is recorded in both directions; from a
  step without an id nothing is recorded; and with an inherited member for a node the
  turn always raises.
\<close>

lemma link_next_named:
  assumes link: "link_next idx jid (Node j) m t = Inr m'"
    and jid: "truthy jid" "j = to_str jid"
    and node: "map_of m j \<noteq> None"
    and clean: "clean_model m"
  shows "stream_edges Down m' = insert (j, t) (stream_edges Down m)"
    and "stream_edges Up m' = insert (t, j) (stream_edges Up m)"
    and "map_of m' j \<noteq> None"
    and "clean_model m'"
    and "tidy_model m \<Longrightarrow> tidy_model m'"
proof -
  define m1 where "m1 = update_node m j (\<lambda>n. n\<lparr> down := add_key (down n) t \<rparr>)"
  obtain m2 nextNode where ens: "ensureModel m1 t = (m2, nextNode)"
    by (cases "ensureModel m1 t")
  from link jid ens have up: "set_up m2 nextNode j = Inr m'"
    unfolding m1_def link_next_def by (auto split: sum.splits)
  have nextNode: "nextNode \<noteq> Inherited" "nextNode \<noteq> Local"
    using up ensureModel_effect(5) [OF ens] by auto
  from ensureModel_effect(6) [OF ens nextNode(1)]
  have next_is: "nextNode = Node t" and t_node: "map_of m2 t \<noteq> None"
    by simp_all
  with up have m': "m' = update_node m2 t (\<lambda>n. n\<lparr> up := add_key (up n) j \<rparr>)"
    by simp
  have clean1: "clean_model m1"
    using clean by (simp add: m1_def clean_update_node)
  from ensureModel_effect(7) [OF ens clean1 nextNode(1)] have t: "t \<noteq> ''__proto__''"
    using proto_inherited by auto
  from clean node have j: "j \<noteq> ''__proto__''"
    using proto_inherited by (auto simp: clean_model_def)
  have node1: "map_of m1 j \<noteq> None"
    using node by (simp add: m1_def has_node_update_node)
  from node obtain n where n: "map_of m j = Some n" by blast
  from t_node obtain n' where n': "map_of m2 t = Some n'" by blast
  show "stream_edges Down m' = insert (j, t) (stream_edges Down m)"
    by (simp add: m' down_edges_add_up ensureModel_effect(1) [OF ens] m1_def
        down_edges_add_down [OF t] n)
  show "stream_edges Up m' = insert (t, j) (stream_edges Up m)"
    by (simp add: m' up_edges_add_up [OF j] ensureModel_effect(1) [OF ens] m1_def
        up_edges_add_down n')
  show "map_of m' j \<noteq> None"
    using ensureModel_effect(2) [OF ens node1] by (simp add: m' has_node_update_node)
  show "clean_model m'"
    using ensureModel_effect(3) [OF ens clean1] by (simp add: m' clean_update_node)
  show "tidy_model m'" if "tidy_model m"
  proof -
    from that have "tidy_model m1"
      unfolding m1_def by (rule tidy_update_node) (simp add: distinct_add_key)
    then have "tidy_model m2"
      by (rule ensureModel_effect(4) [OF ens])
    then show ?thesis
      unfolding m' by (rule tidy_update_node) (simp add: distinct_add_key)
  qed
qed

lemma link_next_local:
  assumes link: "link_next idx jid Local m t = Inr m'" and jid: "\<not> truthy jid"
  shows "stream_edges key m' = stream_edges key m"
    and "clean_model m \<Longrightarrow> clean_model m'"
    and "tidy_model m \<Longrightarrow> tidy_model m'"
proof -
  obtain m2 nextNode where ens: "ensureModel m t = (m2, nextNode)"
    by (cases "ensureModel m t")
  from link jid have m': "m' = m2"
    by (auto simp: link_next_def ens split: sum.splits)
  show "stream_edges key m' = stream_edges key m"
    by (simp add: m' ensureModel_effect(1) [OF ens])
  show "clean_model m'" if "clean_model m"
    using that by (simp add: m' ensureModel_effect(3) [OF ens])
  show "tidy_model m'" if "tidy_model m"
    using that by (simp add: m' ensureModel_effect(4) [OF ens])
qed

lemma link_next_inherited: "link_next idx jid Inherited m t \<noteq> Inr m'"
  by (simp add: link_next_def split: sum.splits)

lemma link_all_named:
  assumes "foldE (link_next idx jid (Node j)) m ks = Inr m'"
    and "truthy jid" "j = to_str jid"
    and "map_of m j \<noteq> None"
    and "clean_model m"
  shows "stream_edges Down m' = stream_edges Down m \<union> {j} \<times> set ks
         \<and> stream_edges Up m' = stream_edges Up m \<union> set ks \<times> {j}
         \<and> clean_model m' \<and> (tidy_model m \<longrightarrow> tidy_model m')"
  using assms(1,4,5)
proof (induction ks arbitrary: m)
  case Nil
  then show ?case by simp
next
  case (Cons k ks)
  from Cons.prems(1) obtain m1 where m1: "link_next idx jid (Node j) m k = Inr m1"
    and rest: "foldE (link_next idx jid (Node j)) m1 ks = Inr m'"
    by (auto split: sum.splits)
  note fx = link_next_named [OF m1 assms(2,3) Cons.prems(2,3)]
  from Cons.IH [OF rest fx(3,4)] show ?case
    using fx(1,2,5) by auto
qed

lemma link_all_local:
  assumes "foldE (link_next idx jid Local) m ks = Inr m'" and "\<not> truthy jid"
  shows "stream_edges key m' = stream_edges key m
         \<and> (clean_model m \<longrightarrow> clean_model m') \<and> (tidy_model m \<longrightarrow> tidy_model m')"
  using assms(1)
proof (induction ks arbitrary: m)
  case Nil
  then show ?case by simp
next
  case (Cons k ks)
  from Cons.prems(1) obtain m1 where m1: "link_next idx jid Local m k = Inr m1"
    and rest: "foldE (link_next idx jid Local) m1 ks = Inr m'"
    by (auto split: sum.splits)
  note fx = link_next_local [OF m1 assms(2)]
  from Cons.IH [OF rest] show ?case
    using fx by auto
qed

lemma link_all_inherited:
  assumes "foldE (link_next idx jid Inherited) m ks = Inr m'"
  shows "ks = [] \<and> m' = m"
proof (cases ks)
  case Nil
  with assms show ?thesis by simp
next
  case (Cons k ks')
  with assms obtain m1 where "link_next idx jid Inherited m k = Inr m1"
    by (auto split: sum.splits)
  with link_next_inherited show ?thesis by blast
qed

text \<open>
  A turn of the loop over the steps that raises nothing records the edges of the step,
  and so does a whole run of \<open>buildModel\<close>: the \<open>down\<close> edges of the model are the edges
  of the steps and the \<open>up\<close> edges their converse, each neighbour has a node, and the
  \<open>up\<close> keys of a node are the ids of the steps with an edge to it.
\<close>

lemma visit_job_effect:
  assumes visit: "visit_job idx m job = Inr m'" and clean: "clean_model m"
  shows "stream_edges Down m' = stream_edges Down m \<union> step_edges job
         \<and> stream_edges Up m' = stream_edges Up m \<union> (step_edges job)\<inverse>
         \<and> clean_model m' \<and> (tidy_model m \<longrightarrow> tidy_model m')"
proof -
  let ?jid = "get job ''id''"
  obtain m0 node where start: "(if truthy ?jid then ensureModel m (to_str ?jid) else (m, Local)) = (m0, node)"
    by (cases "if truthy ?jid then ensureModel m (to_str ?jid) else (m, Local)")
  have m0: "stream_edges key m0 = stream_edges key m" "clean_model m0" "tidy_model m \<Longrightarrow> tidy_model m0" for key
    using start clean ensureModel_effect(1,3,4) [of m "to_str ?jid" m0 node]
    by (auto split: if_splits)
  show ?thesis
  proof (cases "\<exists>s. get job ''next'' = JStr s")
    case True
    then obtain s where s: "get job ''next'' = JStr s" by blast
    with visit start have "m' = m0"
      by (auto simp: visit_job_def Let_def split: sum.splits)
    moreover have "step_edges job = {}"
      using s by (simp add: step_targets_def step_edges_def)
    ultimately show ?thesis
      using m0 by simp
  next
    case False
    then have tg: "step_targets job = keys (get job ''next'')"
      by (cases "get job ''next''") (simp_all add: step_targets_def)
    from False visit start have fold: "foldE (link_next idx ?jid node) m0 (keys (get job ''next'')) = Inr m'"
      by (cases "get job ''next''") (auto simp: visit_job_def Let_def)
    show ?thesis
    proof (cases node)
      case (Node j)
      with start have t: "truthy ?jid" and ens: "ensureModel m (to_str ?jid) = (m0, Node j)"
        by (auto split: if_splits)
      from ensureModel_effect(6) [OF ens] have j: "j = to_str ?jid" and has: "map_of m0 j \<noteq> None"
        by simp_all
      from link_all_named [OF fold [unfolded Node] t j has m0(2)] show ?thesis
        using m0 tg t j by (auto simp: step_edges_def Let_def)
    next
      case Local
      with start ensureModel_effect(5) [of m "to_str ?jid" m0 node] have t: "\<not> truthy ?jid"
        by (auto split: if_splits)
      from link_all_local [OF fold [unfolded Local] t] show ?thesis
        using m0 t by (auto simp: step_edges_def Let_def)
    next
      case Inherited
      from link_all_inherited [OF fold [unfolded Inherited]] have "keys (get job ''next'') = []" "m' = m0"
        by simp_all
      then show ?thesis
        using m0 tg by (simp add: step_edges_def)
    qed
  qed
qed

lemma build_effect:
  assumes "foldE (visit_job idx) m steps = Inr m'" and "clean_model m"
  shows "stream_edges Down m' = stream_edges Down m \<union> (\<Union>step \<in> set steps. step_edges step)
         \<and> stream_edges Up m' = stream_edges Up m \<union> (\<Union>step \<in> set steps. step_edges step)\<inverse>
         \<and> clean_model m' \<and> (tidy_model m \<longrightarrow> tidy_model m')"
  using assms
proof (induction steps arbitrary: m)
  case Nil
  then show ?case by simp
next
  case (Cons job steps)
  from Cons.prems(1) obtain m1 where m1: "visit_job idx m job = Inr m1"
    and rest: "foldE (visit_job idx) m1 steps = Inr m'"
    by (auto split: sum.splits)
  note fx = visit_job_effect [OF m1 Cons.prems(2)]
  from fx have "clean_model m1" by simp
  from Cons.IH [OF rest this] fx show ?case
    by auto
qed

lemma buildModel_fold:
  assumes "buildModel plan = (ws, Inr model)"
  shows "foldE (visit_job (jobIdx (plan_steps plan))) [] (plan_steps plan) = Inr model"
  using assms by (simp add: buildModel_def Let_def)

lemma buildModel_edges:
  assumes "buildModel plan = (ws, Inr model)"
  shows "stream_edges Down model = (\<Union>job \<in> set (plan_steps plan). step_edges job)"
    and "stream_edges Up model = (\<Union>job \<in> set (plan_steps plan). step_edges job)\<inverse>"
proof -
  have "clean_model []" by (simp add: clean_model_def)
  from build_effect [OF buildModel_fold [OF assms] this]
  show "stream_edges Down model = (\<Union>job \<in> set (plan_steps plan). step_edges job)"
    and "stream_edges Up model = (\<Union>job \<in> set (plan_steps plan). step_edges job)\<inverse>"
    by (simp_all add: stream_edges_def)
qed

lemma buildModel_tidy:
  assumes "buildModel plan = (ws, Inr model)"
  shows "tidy_model model"
proof -
  have "clean_model []" "tidy_model []"
    by (simp_all add: clean_model_def tidy_model_def)
  with build_effect [OF buildModel_fold [OF assms]] show ?thesis
    by blast
qed

lemma buildModel_closed:
  assumes "buildModel plan = (ws, Inr model)"
  shows "closed_model Down model"
  unfolding closed_model_def
proof (intro allI impI)
  fix a b
  assume "(a, b) \<in> stream_edges Down model"
  then have "(b, a) \<in> stream_edges Up model"
    by (simp add: buildModel_edges [OF assms])
  then show "map_of model b \<noteq> None"
    by (auto simp: stream_edges_def)
qed

lemma buildModel_up:
  assumes "buildModel plan = (ws, Inr model)" and "map_of model z = Some node"
  shows "set (up node) = {a. \<exists>step \<in> set (plan_steps plan). (a, z) \<in> step_edges step}"
proof -
  have "set (up node) = {a. (z, a) \<in> stream_edges Up model}"
    using assms(2) by (simp add: stream_edges_def)
  then show ?thesis
    by (auto simp: buildModel_edges(2) [OF assms(1)])
qed

section \<open>What the cycle search finds\<close>

lemma for_in_raises:
  "for_in ks body = Some (Inl e) \<Longrightarrow> \<exists>k \<in> set ks. body k = Some (Inl e)"
  by (induction ks) (auto split: option.splits sum.splits)


lemma search_sound:
  "search depth model frm targetId key = Some (Inl e) \<Longrightarrow>
     e = TypeError \<or>
     (\<exists>x. e = ValidationError (''Circular dependency: '' @ x @ '' <-> '' @ targetId)
          \<and> (frm, x) \<in> (stream_edges key model)\<^sup>* \<and> (x, targetId) \<in> stream_edges key model)"
proof (induction depth arbitrary: frm)
  case 0
  then show ?case by simp
next
  case (Suc depth)
  show ?case
  proof (cases "map_of model frm")
    case None
    with Suc.prems show ?thesis by (simp split: if_splits)
  next
    case (Some node)
    with Suc.prems obtain k where k: "k \<in> set (stream key node)"
      and body: "(if k = targetId
                  then Some (Inl (ValidationError (''Circular dependency: '' @ frm @ '' <-> '' @ targetId)))
                  else search depth model k targetId key) = Some (Inl e)"
      by (auto dest!: for_in_raises)
    have edge: "(frm, k) \<in> stream_edges key model"
      using Some k by (auto simp: stream_edges_def)
    show ?thesis
    proof (cases "k = targetId")
      case True
      with body edge show ?thesis by auto
    next
      case False
      with body have "search depth model k targetId key = Some (Inl e)" by simp
      from Suc.IH [OF this] show ?thesis
      proof
        assume "e = TypeError"
        then show ?thesis by simp
      next
        assume "\<exists>x. e = ValidationError (''Circular dependency: '' @ x @ '' <-> '' @ targetId)
          \<and> (k, x) \<in> (stream_edges key model)\<^sup>* \<and> (x, targetId) \<in> stream_edges key model"
        then obtain x where x: "e = ValidationError (''Circular dependency: '' @ x @ '' <-> '' @ targetId)"
          "(k, x) \<in> (stream_edges key model)\<^sup>*" "(x, targetId) \<in> stream_edges key model"
          by blast
        from edge x(2) have "(frm, x) \<in> (stream_edges key model)\<^sup>*"
          by (rule converse_rtrancl_into_rtrancl)
        with x(1,3) show ?thesis by blast
      qed
    qed
  qed
qed


lemma search_no_TypeError:
  "closed_model key model \<Longrightarrow> map_of model frm \<noteq> None \<Longrightarrow>
   search depth model frm targetId key \<noteq> Some (Inl TypeError)"
proof (induction depth arbitrary: frm)
  case 0
  then show ?case by simp
next
  case (Suc depth)
  from Suc.prems(2) obtain node where node: "map_of model frm = Some node"
    by blast
  show ?case
  proof
    assume "search (Suc depth) model frm targetId key = Some (Inl TypeError)"
    with node have "for_in (stream key node)
       (\<lambda>nextId. if nextId = targetId
          then Some (Inl (ValidationError (''Circular dependency: '' @ frm @ '' <-> '' @ targetId)))
          else search depth model nextId targetId key) = Some (Inl TypeError)"
      by simp
    from for_in_raises [OF this] obtain k where k: "k \<in> set (stream key node)"
      and body: "(if k = targetId
                  then Some (Inl (ValidationError (''Circular dependency: '' @ frm @ '' <-> '' @ targetId)))
                  else search depth model k targetId key) = Some (Inl TypeError)"
      by blast
    from k node have "(frm, k) \<in> stream_edges key model"
      by (auto simp: stream_edges_def)
    with Suc.prems(1) have "map_of model k \<noteq> None"
      unfolding closed_model_def by blast
    from Suc.IH [OF Suc.prems(1) this] have "search depth model k targetId key \<noteq> Some (Inl TypeError)" .
    with body show False
      by (cases "k = targetId") simp_all
  qed
qed

text \<open>
  When the search returns. A result within some depth is the result within every greater
  depth; and the search from \<open>x\<close> for \<open>t\<close> returns within some depth when the edges
  reachable from \<open>x\<close>, less those that enter \<open>t\<close>, have no cycle: the loop leaves at an
  edge into \<open>t\<close>, so only the others are followed.
\<close>

lemma for_in_returns:
  "(\<And>k. k \<in> set ks \<Longrightarrow> \<exists>r. body k = Some r) \<Longrightarrow> \<exists>r. for_in ks body = Some r"
proof (induction ks)
  case Nil
  show ?case by simp
next
  case (Cons k ks)
  from Cons.prems [of k] obtain r where r: "body k = Some r" by auto
  from Cons.IH Cons.prems obtain r' where r': "for_in ks body = Some r'" by auto
  show ?case
    using r r' by (cases r) simp_all
qed

lemma for_in_mono:
  "for_in ks body = Some r \<Longrightarrow> (\<And>k r. k \<in> set ks \<Longrightarrow> body k = Some r \<Longrightarrow> body' k = Some r)
   \<Longrightarrow> for_in ks body' = Some r"
proof (induction ks)
  case Nil
  then show ?case by simp
next
  case (Cons k ks)
  from Cons.prems(1) obtain rk where rk: "body k = Some rk"
    by (cases "body k") simp_all
  with Cons.prems(2) [of k rk] have rk': "body' k = Some rk" by simp
  show ?case
  proof (cases rk)
    case (Inl e)
    with rk Cons.prems(1) have "r = Inl e" by simp
    with Inl rk' show ?thesis by simp
  next
    case (Inr u)
    with rk Cons.prems(1) have "for_in ks body = Some r" by simp
    from Cons.IH [OF this] Cons.prems(2) have "for_in ks body' = Some r" by simp
    with Inr rk' show ?thesis by simp
  qed
qed

lemma search_mono:
  "search d model frm targetId key = Some r \<Longrightarrow> d \<le> d' \<Longrightarrow> search d' model frm targetId key = Some r"
proof (induction d arbitrary: frm d' r)
  case 0
  then show ?case by simp
next
  case (Suc d)
  from Suc.prems(2) obtain e where d': "d' = Suc e" and le: "d \<le> e"
    by (cases d') simp_all
  show ?case
  proof (cases "map_of model frm")
    case None
    with Suc.prems(1) show ?thesis by (simp add: d')
  next
    case (Some node)
    with Suc.prems(1) have loop: "for_in (stream key node)
       (\<lambda>nextId. if nextId = targetId
          then Some (Inl (ValidationError (''Circular dependency: '' @ frm @ '' <-> '' @ targetId)))
          else search d model nextId targetId key) = Some r"
      by simp
    have "for_in (stream key node)
       (\<lambda>nextId. if nextId = targetId
          then Some (Inl (ValidationError (''Circular dependency: '' @ frm @ '' <-> '' @ targetId)))
          else search e model nextId targetId key) = Some r"
      using loop
    proof (rule for_in_mono)
      fix k r'
      assume "(if k = targetId
          then Some (Inl (ValidationError (''Circular dependency: '' @ frm @ '' <-> '' @ targetId)))
          else search d model k targetId key) = Some r'"
      then show "(if k = targetId
          then Some (Inl (ValidationError (''Circular dependency: '' @ frm @ '' <-> '' @ targetId)))
          else search e model k targetId key) = Some r'"
        using Suc.IH [of k r' e] le by (cases "k = targetId") simp_all
    qed
    with Some show ?thesis by (simp add: d')
  qed
qed


lemma finite_stream_edges: "finite (stream_edges key model)"
proof -
  have "stream_edges key model \<subseteq> fst ` set model \<times> (\<Union>entry \<in> set model. set (stream key (snd entry)))"
  proof
    fix e assume "e \<in> stream_edges key model"
    then obtain a b node where e: "e = (a, b)" and node: "map_of model a = Some node"
      and b: "b \<in> set (stream key node)"
      unfolding stream_edges_def by blast
    from node have mem: "(a, node) \<in> set model" by (rule map_of_SomeD)
    then have "a \<in> fst ` set model" by (rule image_eqI [rotated]) simp
    moreover from mem b have "b \<in> (\<Union>entry \<in> set model. set (stream key (snd entry)))"
      by (intro UN_I [of "(a, node)"]) simp_all
    ultimately show "e \<in> fst ` set model \<times> (\<Union>entry \<in> set model. set (stream key (snd entry)))"
      unfolding e by (rule SigmaI)
  qed
  moreover have "finite (fst ` set model \<times> (\<Union>entry \<in> set model. set (stream key (snd entry))))"
    by simp
  ultimately show ?thesis
    by (rule finite_subset)
qed

lemma uniform_depth:
  fixes f :: "nat \<Rightarrow> 'k \<Rightarrow> 'r option"
  assumes "\<And>k. k \<in> set ks \<Longrightarrow> \<exists>d r. f d k = Some r"
    and mono: "\<And>d d' k r. f d k = Some r \<Longrightarrow> d \<le> d' \<Longrightarrow> f d' k = Some r"
  shows "\<exists>D. \<forall>k \<in> set ks. \<exists>r. f D k = Some r"
  using assms(1)
proof (induction ks)
  case Nil
  show ?case by simp
next
  case (Cons k ks)
  from Cons.prems [of k] obtain d r where d: "f d k = Some r" by auto
  from Cons.IH Cons.prems obtain D where D: "\<forall>k \<in> set ks. \<exists>r. f D k = Some r" by auto
  have "f (max d D) k = Some r"
    using mono [OF d, of "max d D"] by simp
  moreover have "\<exists>r. f (max d D) k' = Some r" if "k' \<in> set ks" for k'
  proof -
    from D that obtain r' where "f D k' = Some r'" by blast
    then have "f (max d D) k' = Some r'" using mono [of D k' r' "max d D"] by simp
    then show ?thesis by blast
  qed
  ultimately have "\<forall>k' \<in> set (k # ks). \<exists>r. f (max d D) k' = Some r"
    by auto
  then show ?case by blast
qed

lemma search_returns:
  assumes acyclic: "acyclic {(a, b). (a, b) \<in> part_from (stream_edges key model) x0 \<and> b \<noteq> t}"
    and reach: "(x0, x) \<in> (stream_edges key model)\<^sup>*"
  shows "\<exists>d r. search d model x t key = Some r"
proof -
  let ?E = "stream_edges key model"
  let ?R = "{(a, b). (a, b) \<in> part_from ?E x0 \<and> b \<noteq> t}"
  have "?R \<subseteq> ?E"
    by (auto simp: part_from_def)
  then have "finite ?R"
    by (rule finite_subset) (rule finite_stream_edges)
  then have wf: "wf (?R\<inverse>)"
    using acyclic by (rule finite_acyclic_wf_converse)
  from wf reach show ?thesis
  proof (induction x rule: wf_induct_rule)
    case (less x)
    show ?case
    proof (cases "map_of model x")
      case None
      then have "\<exists>r. search (Suc 0) model x t key = Some r" by simp
      then show ?thesis by blast
    next
      case (Some node)
      let ?body = "\<lambda>d k. if k = t
          then Some (Inl (ValidationError (''Circular dependency: '' @ x @ '' <-> '' @ t)))
          else search d model k t key"
      have each: "\<exists>d r. ?body d k = Some r" if k: "k \<in> set (stream key node)" for k
      proof (cases "k = t")
        case True
        then show ?thesis by simp
      next
        case False
        from k Some have edge: "(x, k) \<in> ?E"
          by (auto simp: stream_edges_def)
        with less.prems False have "(k, x) \<in> ?R\<inverse>"
          by (simp add: part_from_def)
        moreover from less.prems edge have "(x0, k) \<in> ?E\<^sup>*"
          by (rule rtrancl_into_rtrancl)
        ultimately have "\<exists>d r. search d model k t key = Some r"
          by (rule less.IH)
        with False show ?thesis by simp
      qed
      have mono: "?body d' k = Some r" if "?body d k = Some r" "d \<le> d'" for d d' k r
      proof (cases "k = t")
        case True
        with that(1) show ?thesis by simp
      next
        case False
        with that(1) have "search d model k t key = Some r" by simp
        then have "search d' model k t key = Some r" using that(2) by (rule search_mono)
        with False show ?thesis by simp
      qed
      have "\<exists>D. \<forall>k \<in> set (stream key node). \<exists>r. ?body D k = Some r"
      proof (rule uniform_depth [where f = ?body])
        fix k assume "k \<in> set (stream key node)"
        then show "\<exists>d r. ?body d k = Some r" by (rule each)
      next
        fix d d' k r assume "?body d k = Some r" "d \<le> d'"
        then show "?body d' k = Some r" by (rule mono)
      qed
      then obtain D where "\<forall>k \<in> set (stream key node). \<exists>r. ?body D k = Some r"
        by blast
      then have "\<exists>r. for_in (stream key node) (?body D) = Some r"
        using for_in_returns [of "stream key node" "?body D"] by blast
      then obtain r where "for_in (stream key node) (?body D) = Some r" by blast
      with Some have "search (Suc D) model x t key = Some r" by simp
      then show ?thesis by blast
    qed
  qed
qed


lemma reach_in_part:
  "(x, y) \<in> E\<^sup>* \<Longrightarrow> (x, y) \<in> (part_from E x)\<^sup>*"
proof (induction rule: rtrancl_induct)
  case base
  show ?case by simp
next
  case (step y z)
  then have "(y, z) \<in> part_from E x"
    by (simp add: part_from_def)
  with step.IH show ?case
    by (rule rtrancl_into_rtrancl)
qed

lemma for_in_prefix_passes:
  "(\<And>k. k \<in> set ks \<Longrightarrow> body k = Some (Inr ())) \<Longrightarrow> for_in (ks @ rest) body = for_in rest body"
  by (induction ks) simp_all

lemma search_origin_quiet:
  assumes closed: "closed_model key model"
    and node: "map_of model k \<noteq> None"
    and acyclic: "acyclic (part_from (stream_edges key model) k)"
    and res: "search d model k k key = Some r"
  shows "r = Inr ()"
proof (cases r)
  case (Inl e)
  let ?E = "stream_edges key model"
  from search_no_TypeError [OF closed node, of d k] res Inl have "e \<noteq> TypeError"
    by auto
  with search_sound [of d model k k key e] res Inl obtain a where
    a: "(k, a) \<in> ?E\<^sup>*" "(a, k) \<in> ?E"
    by auto
  from a(1) have path: "(k, a) \<in> (part_from ?E k)\<^sup>*"
    by (rule reach_in_part)
  from a have "(a, k) \<in> part_from ?E k"
    by (simp add: part_from_def)
  with path have "(k, k) \<in> (part_from ?E k)\<^sup>+"
    by (rule rtrancl_into_trancl1)
  with acyclic show ?thesis
    by (simp add: acyclic_def)
next
  case (Inr u)
  then show ?thesis by simp
qed


lemma cycle_search_passes:
  assumes closed: "closed_model Down model"
    and acyclic: "acyclic (stream_edges Down model)"
  shows "\<exists>D. \<forall>d \<ge> D. assertNoCircularReferences d model = Some (Inr ())"
proof -
  let ?E = "stream_edges Down model"
  have part: "acyclic (part_from ?E k)" for k
  proof (rule acyclic_subset [OF acyclic])
    show "part_from ?E k \<subseteq> ?E" by (auto simp: part_from_def)
  qed
  have each: "\<exists>d r. search d model k k Down = Some r" for k
  proof -
    have "{(a, b). (a, b) \<in> part_from ?E k \<and> b \<noteq> k} \<subseteq> part_from ?E k" by blast
    with part have "acyclic {(a, b). (a, b) \<in> part_from ?E k \<and> b \<noteq> k}"
      by (rule acyclic_subset)
    then show ?thesis
      by (rule search_returns) simp
  qed
  have "\<exists>D. \<forall>k \<in> set (map fst model). \<exists>r. search D model k k Down = Some r"
  proof (rule uniform_depth [where f = "\<lambda>d k. search d model k k Down"])
    fix k show "\<exists>d r. search d model k k Down = Some r" by (rule each)
  next
    fix d d' k r assume "search d model k k Down = Some r" "d \<le> d'"
    then show "search d' model k k Down = Some r" by (rule search_mono)
  qed
  then obtain D where D: "\<forall>k \<in> set (map fst model). \<exists>r. search D model k k Down = Some r"
    by blast
  have quiet: "search d model k k Down = Some (Inr ())"
    if k: "k \<in> set (map fst model)" and d: "D \<le> d" for k d
  proof -
    from D k obtain r where r: "search D model k k Down = Some r" by blast
    from k have node: "map_of model k \<noteq> None"
      by (simp add: map_of_eq_None_iff)
    from search_origin_quiet [OF closed node part r] r
    have "search D model k k Down = Some (Inr ())" by simp
    then show ?thesis using d by (rule search_mono)
  qed
  have "assertNoCircularReferences d model = Some (Inr ())" if d: "D \<le> d" for d
  proof -
    let ?body = "\<lambda>nodeId. search d model nodeId nodeId Down"
    have "for_in (map fst model @ []) ?body = for_in [] ?body"
    proof (rule for_in_prefix_passes)
      fix k assume "k \<in> set (map fst model)"
      then show "search d model k k Down = Some (Inr ())"
        using d by (rule quiet)
    qed
    then show ?thesis
      by (simp add: assertNoCircularReferences_def)
  qed
  then show ?thesis by blast
qed

section \<open>Concrete plans\<close>

text \<open>
  \<open>mk_job\<close> is the helper \<^verbatim>\<open>job(id, next)\<close> of the repository's test file: the step
  \<^verbatim>\<open>{ id, next, expression: '.' }\<close>; \<open>edges_to\<close> is a mapping-form \<^verbatim>\<open>next\<close> with the
  value \<open>true\<close> for each target, and \<open>mk_plan\<close> puts options and steps into a plan.
\<close>

definition mk_job :: "string \<Rightarrow> jsval \<Rightarrow> jsval" where
  "mk_job i nx = JObj [(''id'', JStr i), (''next'', nx), (''expression'', JStr ''.'')]"

definition edges_to :: "string list \<Rightarrow> jsval" where
  "edges_to targets = JObj (map (\<lambda>k. (k, JBool True)) targets)"

definition mk_plan :: "(string \<times> jsval) list \<Rightarrow> jsval list \<Rightarrow> jsval" where
  "mk_plan opts steps = JObj [(''options'', JObj opts), (''workflow'', JObj [(''steps'', JArr steps)])]"

text \<open>Three steps, \<open>a \<rightarrow> b \<rightarrow> c \<rightarrow> b\<close>: a cycle that does not pass through the first node.\<close>

definition plan_inner_cycle :: jsval where
  "plan_inner_cycle =
     mk_plan [] [mk_job ''a'' (edges_to [''b'']), mk_job ''b'' (edges_to [''c'']), mk_job ''c'' (edges_to [''b''])]"

definition model_inner_cycle :: Model where
  "model_inner_cycle =
     [(''a'', \<lparr> up = [], down = [''b''] \<rparr>),
      (''b'', \<lparr> up = [''a'', ''c''], down = [''c''] \<rparr>),
      (''c'', \<lparr> up = [''b''], down = [''b''] \<rparr>)]"

text \<open>Two steps that have an expression and no id: \<^verbatim>\<open>[{expression: '.'}, {expression: '.'}]\<close>.\<close>

definition plan_two_anonymous :: jsval where
  "plan_two_anonymous =
     mk_plan [] [JObj [(''expression'', JStr ''.'')], JObj [(''expression'', JStr ''.'')]]"

section \<open>Unfolding the definitions on a concrete plan\<close>

lemmas schema_defs =
  executionPlanSchema_def stepSchema_def z_object_def z_array_def z_optional_def z_string_def
  z_string_min_def z_number_min_def z_boolean_def z_any_def z_union_def z_record_def invalid_type_def

lemmas model_defs =
  plan_steps_def buildModel_def buildModel_warnings_def requiredKeys_def visit_job_def link_next_def
  validateJob_def job_found_def jobIdx_def set_job_def ensureModel_def update_node_def add_key_def
  put_property_def goes_after_def is_array_index_def is_digit_def object_prototype_names_def

lemmas assert_defs =
  assertStart_def assertNoCircularReferences_def assertSingletonDependencies_def assertStepKeys_def
  check_step_keys_def validKeys_def assertValidOptions_def validOptionsKeys_def assertValidStepIds_def
  assertUnreferencedSteps_def quoted_def

lemmas plan_defs = mk_job_def edges_to_def mk_plan_def

section \<open>The cycle search on a cycle off the origin\<close>

lemma buildModel_inner_cycle: "buildModel plan_inner_cycle = ([], Inr model_inner_cycle)"
  by (simp add: plan_inner_cycle_def model_inner_cycle_def plan_defs model_defs Let_def)

lemma schema_inner_cycle: "executionPlanSchema [] plan_inner_cycle = []"
  by (simp add: plan_inner_cycle_def plan_defs schema_defs)

lemma search_inner_cycle:
  "search depth model_inner_cycle ''b'' ''a'' Down = None
   \<and> search depth model_inner_cycle ''c'' ''a'' Down = None"
  by (induction depth) (simp_all add: model_inner_cycle_def)

lemma search_inner_cycle_origin: "search depth model_inner_cycle ''a'' ''a'' Down = None"
proof (cases depth)
  case 0
  then show ?thesis by simp
next
  case (Suc d)
  have "search d model_inner_cycle ''b'' ''a'' Down = None"
    using search_inner_cycle by blast
  then show ?thesis
    unfolding Suc by (simp add: model_inner_cycle_def)
qed

text \<open>
  C2 (the code departs from the claim). The claim: for every plan \<open>validate\<close> returns
  \<open>true\<close> or raises a \<open>ValidationError\<close>. On the plan \<open>a \<rightarrow> b \<rightarrow> c \<rightarrow> b\<close>, which passes
  the schema, the start check and \<open>buildModel\<close>, the search from \<open>a\<close> for \<open>a\<close> goes
  round \<open>b \<rightarrow> c \<rightarrow> b\<close> and never meets \<open>a\<close>: whatever depth of nested calls is allowed,
  \<open>validate\<close> has not returned within it.
\<close>

theorem validate_inner_cycle_never_returns:
  "validate depth plan_inner_cycle = ([], None)"
proof -
  have "assertNoCircularReferences depth model_inner_cycle = None"
    using search_inner_cycle_origin [of depth]
    by (simp add: assertNoCircularReferences_def model_inner_cycle_def)
  moreover have "assertStart plan_inner_cycle = Inr ()"
    by (simp add: assertStart_def plan_inner_cycle_def plan_defs)
  ultimately show ?thesis
    by (simp add: validate_def schema_inner_cycle buildModel_inner_cycle)
qed

section \<open>Steps without an id in the duplicate check\<close>

text \<open>
  C3 (the code departs from the claim). The claim: steps that omit \<open>id\<close> are exempt
  from the duplicate check. \<open>assertValidStepIds\<close> puts \<^verbatim>\<open>step.id\<close> into the set also
  when it is \<open>undefined\<close>, so the second step without an id is reported as a duplicate:
  the plan of two steps \<^verbatim>\<open>{expression: '.'}\<close>, which passes every other check, is
  rejected with the id \<open>undefined\<close> in the message.
\<close>

theorem validate_two_anonymous_steps:
  "validate depth plan_two_anonymous =
     ([''[Validation Warning]: The step at index 0 is considered empty or invalid as it lacks required properties.'',
       ''[Validation Warning]: The step at index 1 is considered empty or invalid as it lacks required properties.''],
      Some (Inl (ValidationError ''Duplicate step ID detected: undefined'')))"
  by (simp add: validate_def plan_two_anonymous_def plan_defs schema_defs model_defs assert_defs
      string_of_nat.simps digit_char_def Let_def)

section \<open>A cycle behind an entry step\<close>

text \<open>
  A plan with an entry step before a loop of three steps, \<open>s \<rightarrow> a \<rightarrow> b \<rightarrow> c \<rightarrow> a\<close>, and
  its model.
\<close>

definition plan_entry_cycle :: jsval where
  "plan_entry_cycle =
     mk_plan [] [mk_job ''s'' (edges_to [''a'']), mk_job ''a'' (edges_to [''b'']),
                 mk_job ''b'' (edges_to [''c'']), mk_job ''c'' (edges_to [''a''])]"

definition model_entry_cycle :: Model where
  "model_entry_cycle =
     [(''s'', \<lparr> up = [], down = [''a''] \<rparr>),
      (''a'', \<lparr> up = [''s'', ''c''], down = [''b''] \<rparr>),
      (''b'', \<lparr> up = [''a''], down = [''c''] \<rparr>),
      (''c'', \<lparr> up = [''b''], down = [''a''] \<rparr>)]"

lemma schema_entry_cycle: "executionPlanSchema [] plan_entry_cycle = []"
  by (simp add: plan_entry_cycle_def plan_defs schema_defs)

lemma start_entry_cycle: "assertStart plan_entry_cycle = Inr ()"
  by (simp add: assertStart_def plan_entry_cycle_def plan_defs)

lemma buildModel_entry_cycle: "buildModel plan_entry_cycle = ([], Inr model_entry_cycle)"
  by (simp add: plan_entry_cycle_def model_entry_cycle_def plan_defs model_defs Let_def)

lemma entry_cycle_is_cycle: "(''a'', ''a'') \<in> (stream_edges Down model_entry_cycle)\<^sup>+"
proof -
  have "(''a'', ''b'') \<in> stream_edges Down model_entry_cycle"
    and "(''b'', ''c'') \<in> stream_edges Down model_entry_cycle"
    and "(''c'', ''a'') \<in> stream_edges Down model_entry_cycle"
    by (simp_all add: stream_edges_def model_entry_cycle_def)
  then show ?thesis
    by (blast intro: trancl_into_trancl r_into_trancl)
qed

lemma search_entry_cycle:
  "search depth model_entry_cycle ''a'' ''s'' Down = None
   \<and> search depth model_entry_cycle ''b'' ''s'' Down = None
   \<and> search depth model_entry_cycle ''c'' ''s'' Down = None"
  by (induction depth) (simp_all add: model_entry_cycle_def)

lemma search_entry_cycle_origin: "search depth model_entry_cycle ''s'' ''s'' Down = None"
proof (cases depth)
  case 0
  then show ?thesis by simp
next
  case (Suc d)
  have "search d model_entry_cycle ''a'' ''s'' Down = None"
    using search_entry_cycle by blast
  then show ?thesis
    unfolding Suc by (simp add: model_entry_cycle_def)
qed

text \<open>
  C1 (the code departs from the claim). The claim: whenever some id is reachable from
  itself along \<open>down\<close> edges, \<open>validate\<close> raises \<^verbatim>\<open>Circular dependency: a <-> b\<close> for an
  edge on a cycle. The plan \<open>s \<rightarrow> a \<rightarrow> b \<rightarrow> c \<rightarrow> a\<close> passes the schema, the start check
  and \<open>buildModel\<close>, and in its model \<open>a\<close> is reachable from itself. The search starts
  at the first key, \<open>s\<close>, and looks for \<open>s\<close>: it goes round \<open>a \<rightarrow> b \<rightarrow> c \<rightarrow> a\<close> and keeps
  no record of the nodes it has seen, so whatever depth of nested calls is allowed,
  \<open>validate\<close> has not returned within it and no error is raised for the cycle.
\<close>

theorem validate_entry_cycle_never_returns:
  "executionPlanSchema [] plan_entry_cycle = []
   \<and> assertStart plan_entry_cycle = Inr ()
   \<and> buildModel plan_entry_cycle = ([], Inr model_entry_cycle)
   \<and> (''a'', ''a'') \<in> (stream_edges Down model_entry_cycle)\<^sup>+
   \<and> validate depth plan_entry_cycle = ([], None)"
proof -
  have "assertNoCircularReferences depth model_entry_cycle = None"
    using search_entry_cycle_origin [of depth]
    by (simp add: assertNoCircularReferences_def model_entry_cycle_def)
  then have "validate depth plan_entry_cycle = ([], None)"
    by (simp add: validate_def schema_entry_cycle start_entry_cycle buildModel_entry_cycle)
  then show ?thesis
    using schema_entry_cycle start_entry_cycle buildModel_entry_cycle entry_cycle_is_cycle
    by (intro conjI)
qed

section \<open>More than one upstream neighbour\<close>

text \<open>
  The plan of the repository's test \<^verbatim>\<open>throws for a multiple inputs\<close> (\<open>a\<close> to \<open>b\<close>
  and \<open>c\<close>, both to \<open>z\<close>) with its model, and a plan where \<open>a\<close> and \<open>b\<close> both lead
  to \<open>z\<close> and to each other.
\<close>

definition plan_fan_in :: jsval where
  "plan_fan_in =
     mk_plan []
       [mk_job ''a'' (edges_to [''b'', ''c'']), mk_job ''b'' (edges_to [''z'']),
        mk_job ''c'' (edges_to [''z'']), mk_job ''z'' JUndefined]"

definition model_fan_in :: Model where
  "model_fan_in =
     [(''a'', \<lparr> up = [], down = [''b'', ''c''] \<rparr>),
      (''b'', \<lparr> up = [''a''], down = [''z''] \<rparr>),
      (''c'', \<lparr> up = [''a''], down = [''z''] \<rparr>),
      (''z'', \<lparr> up = [''b'', ''c''], down = [] \<rparr>)]"

definition plan_fan_in_cycle :: jsval where
  "plan_fan_in_cycle =
     mk_plan []
       [mk_job ''a'' (edges_to [''b'', ''z'']), mk_job ''b'' (edges_to [''a'', ''z'']),
        mk_job ''z'' JUndefined]"

definition model_fan_in_cycle :: Model where
  "model_fan_in_cycle =
     [(''a'', \<lparr> up = [''b''], down = [''b'', ''z''] \<rparr>),
      (''b'', \<lparr> up = [''a''], down = [''a'', ''z''] \<rparr>),
      (''z'', \<lparr> up = [''a'', ''b''], down = [] \<rparr>)]"

lemma schema_fan_in: "executionPlanSchema [] plan_fan_in = []"
  by (simp add: plan_fan_in_def plan_defs schema_defs)

lemma start_fan_in: "assertStart plan_fan_in = Inr ()"
  by (simp add: plan_fan_in_def plan_defs assert_defs model_defs)

lemma buildModel_fan_in: "buildModel plan_fan_in = ([], Inr model_fan_in)"
  by (simp add: plan_fan_in_def model_fan_in_def plan_defs model_defs Let_def)

lemma acyclic_model_fan_in: "acyclic (stream_edges Down model_fan_in)"
proof (rule acyclicI_order)
  fix a b assume "(a, b) \<in> stream_edges Down model_fan_in"
  then show "(if b = ''a'' then 3 else if b = ''z'' then 1 else (2 :: nat))
             < (if a = ''a'' then 3 else if a = ''z'' then 1 else 2)"
    by (auto simp: stream_edges_def model_fan_in_def split: if_splits)
qed

lemma steps_fan_in:
  "plan_steps plan_fan_in =
     [mk_job ''a'' (edges_to [''b'', ''c'']), mk_job ''b'' (edges_to [''z'']),
      mk_job ''c'' (edges_to [''z'']), mk_job ''z'' JUndefined]"
  by (simp add: plan_fan_in_def plan_steps_def mk_plan_def)


text \<open>
  C6 (as stated). The claim: whenever some id has two or more upstream neighbours,
  \<open>validate\<close> raises the multiple-dependencies error for it. The cycle check comes
  first: in the plan \<open>a \<rightarrow> {b, z}\<close>, \<open>b \<rightarrow> {a, z}\<close> the node \<open>z\<close> has the upstream
  neighbours \<open>a\<close> and \<open>b\<close>, and the plan is rejected for the cycle between \<open>a\<close> and \<open>b\<close>.
\<close>

theorem fan_in_behind_cycle:
  "buildModel plan_fan_in_cycle = ([], Inr model_fan_in_cycle)
   \<and> map_of model_fan_in_cycle ''z'' = Some \<lparr> up = [''a'', ''b''], down = [] \<rparr>
   \<and> validate 100 plan_fan_in_cycle
       = ([], Some (Inl (ValidationError ''Circular dependency: b <-> a'')))"
proof -
  have build: "buildModel plan_fan_in_cycle = ([], Inr model_fan_in_cycle)"
    by (simp add: plan_fan_in_cycle_def model_fan_in_cycle_def plan_defs model_defs Let_def)
  have "executionPlanSchema [] plan_fan_in_cycle = []"
    by (simp add: plan_fan_in_cycle_def plan_defs schema_defs)
  moreover have "assertStart plan_fan_in_cycle = Inr ()"
    by (simp add: plan_fan_in_cycle_def plan_defs assert_defs model_defs)
  moreover have "assertNoCircularReferences 100 model_fan_in_cycle
                   = Some (Inl (ValidationError ''Circular dependency: b <-> a''))"
    by code_simp
  ultimately show ?thesis
    using build by (simp add: validate_def model_fan_in_cycle_def)
qed

text \<open>
  C6 (amended). For a plan that passes the schema check and the start check and for
  which \<open>buildModel\<close> returns a model without a cycle along \<open>down\<close> edges: when two
  steps with different ids name the same target \<open>z\<close> in their mapping-form \<^verbatim>\<open>next\<close>,
  \<open>validate\<close> raises \<^verbatim>\<open>Multiple dependencies detected for: <id>\<close> (within every depth
  from some depth on), where \<^verbatim>\<open><id>\<close> is the first node of the model with more than one
  upstream neighbour (a node that steps with at least two different ids lead to).
\<close>

theorem fan_in_reported_after_cycle_check:
  assumes schema: "executionPlanSchema [] plan = []"
    and start: "assertStart plan = Inr ()"
    and build: "buildModel plan = (ws, Inr model)"
    and acyclic: "acyclic (stream_edges Down model)"
    and s1: "s1 \<in> set (plan_steps plan)" "truthy (get s1 ''id'')" "z \<in> set (step_targets s1)"
    and s2: "s2 \<in> set (plan_steps plan)" "truthy (get s2 ''id'')" "z \<in> set (step_targets s2)"
    and diff: "to_str (get s1 ''id'') \<noteq> to_str (get s2 ''id'')"
  shows "\<exists>i D. i < length model
           \<and> (\<forall>d \<ge> D. validate d plan =
               (ws, Some (Inl (ValidationError (''Multiple dependencies detected for: '' @ fst (model ! i))))))
           \<and> 1 < card {a. \<exists>step \<in> set (plan_steps plan). (a, fst (model ! i)) \<in> step_edges step}
           \<and> (\<forall>j<i. length (up (snd (model ! j))) \<le> 1)"
proof -
  have edge1: "(to_str (get s1 ''id''), z) \<in> step_edges s1"
    using s1(2,3) by (simp add: step_edges_def)
  with s1(1) have "(z, to_str (get s1 ''id'')) \<in> stream_edges Up model"
    unfolding buildModel_edges(2) [OF build] by blast
  then obtain node where node: "map_of model z = Some node"
    by (auto simp: stream_edges_def)
  note up_node = buildModel_up [OF build node]
  from edge1 s1(1) have in1: "to_str (get s1 ''id'') \<in> set (up node)"
    unfolding up_node by blast
  have "(to_str (get s2 ''id''), z) \<in> step_edges s2"
    using s2(2,3) by (simp add: step_edges_def)
  with s2(1) have in2: "to_str (get s2 ''id'') \<in> set (up node)"
    unfolding up_node by blast
  have "{to_str (get s1 ''id''), to_str (get s2 ''id'')} \<subseteq> set (up node)"
    using in1 in2 by simp
  then have "card {to_str (get s1 ''id''), to_str (get s2 ''id'')} \<le> card (set (up node))"
    by (rule card_mono [OF finite_set])
  moreover have "card {to_str (get s1 ''id''), to_str (get s2 ''id'')} = 2"
    using diff by simp
  moreover have "card (set (up node)) \<le> length (up node)"
    by (rule card_length)
  ultimately have long: "1 < length (up node)"
    by linarith
  define P where "P = (\<lambda>(nodeId :: string, node :: ModelNode). 1 < length (up node))"
  have "(z, node) \<in> set model"
    using node by (rule map_of_SomeD)
  moreover have "P (z, node)"
    using long by (simp add: P_def)
  ultimately have "find P model \<noteq> None"
    unfolding find_None_iff by blast
  then obtain hit where hit: "find P model = Some hit" by blast
  from hit have "\<exists>i<length model. P (model ! i) \<and> hit = model ! i \<and> (\<forall>j<i. \<not> P (model ! j))"
    by (simp only: find_Some_iff)
  then obtain i where i: "i < length model" "P (model ! i)" "hit = model ! i"
    and first: "\<forall>j<i. \<not> P (model ! j)"
    by blast
  obtain nodeId node' where mi: "model ! i = (nodeId, node')" by (cases "model ! i")
  from hit i(3) mi have single:
    "assertSingletonDependencies model
       = Inl (ValidationError (''Multiple dependencies detected for: '' @ nodeId))"
    by (simp add: assertSingletonDependencies_def P_def)
  have tidy: "tidy_model model"
    using build by (rule buildModel_tidy)
  have mem: "(nodeId, node') \<in> set model"
    using nth_mem [OF i(1)] mi by simp
  with tidy have node': "map_of model nodeId = Some node'"
    by (simp add: tidy_model_def)
  from tidy mem have "distinct (up node')"
    by (auto simp: tidy_model_def list_all_iff)
  then have "card (set (up node')) = length (up node')"
    by (rule distinct_card)
  moreover from i(2) mi have "1 < length (up node')" by (simp add: P_def)
  ultimately have many: "1 < card {a. \<exists>step \<in> set (plan_steps plan). (a, nodeId) \<in> step_edges step}"
    using buildModel_up [OF build node'] by simp
  have "closed_model Down model"
    using build by (rule buildModel_closed)
  from cycle_search_passes [OF this acyclic] obtain D where
    D: "\<And>d. D \<le> d \<Longrightarrow> assertNoCircularReferences d model = Some (Inr ())"
    by blast
  have res: "validate d plan =
          (ws, Some (Inl (ValidationError (''Multiple dependencies detected for: '' @ nodeId))))"
    if "D \<le> d" for d
    using schema start build D [OF that] single by (simp add: validate_def)
  have firsts: "\<forall>j<i. length (up (snd (model ! j))) \<le> 1"
  proof (intro allI impI)
    fix j assume "j < i"
    with first have "\<not> P (model ! j)" by blast
    then show "length (up (snd (model ! j))) \<le> 1"
      by (cases "model ! j") (simp add: P_def)
  qed
  have fst_i: "fst (model ! i) = nodeId"
    using mi by simp
  show ?thesis
  proof (rule exI [of _ i], rule exI [of _ D], intro conjI)
    show "i < length model" by (rule i(1))
    show "\<forall>d \<ge> D. validate d plan =
            (ws, Some (Inl (ValidationError (''Multiple dependencies detected for: '' @ fst (model ! i)))))"
      using res by (simp only: fst_i) blast
    show "1 < card {a. \<exists>step \<in> set (plan_steps plan). (a, fst (model ! i)) \<in> step_edges step}"
      using many by (simp only: fst_i)
    show "\<forall>j<i. length (up (snd (model ! j))) \<le> 1" by (rule firsts)
  qed
qed


theorem fan_in_reported_witness:
  "\<exists>i D. i < length model_fan_in
      \<and> (\<forall>d \<ge> D. validate d plan_fan_in =
          ([], Some (Inl (ValidationError (''Multiple dependencies detected for: '' @ fst (model_fan_in ! i))))))
      \<and> 1 < card {a. \<exists>step \<in> set (plan_steps plan_fan_in). (a, fst (model_fan_in ! i)) \<in> step_edges step}
      \<and> (\<forall>j<i. length (up (snd (model_fan_in ! j))) \<le> 1)"
proof (rule fan_in_reported_after_cycle_check
    [OF schema_fan_in start_fan_in buildModel_fan_in acyclic_model_fan_in,
      of "mk_job ''b'' (edges_to [''z''])" "''z''" "mk_job ''c'' (edges_to [''z''])"])
  show "mk_job ''b'' (edges_to [''z'']) \<in> set (plan_steps plan_fan_in)"
    and "mk_job ''c'' (edges_to [''z'']) \<in> set (plan_steps plan_fan_in)"
    by (simp_all add: steps_fan_in)
  show "truthy (get (mk_job ''b'' (edges_to [''z''])) ''id'')"
    and "truthy (get (mk_job ''c'' (edges_to [''z''])) ''id'')"
    by (simp_all add: plan_defs)
  show "''z'' \<in> set (step_targets (mk_job ''b'' (edges_to [''z''])))"
    and "''z'' \<in> set (step_targets (mk_job ''c'' (edges_to [''z''])))"
    by (simp_all add: plan_defs step_targets_def)
  show "to_str (get (mk_job ''b'' (edges_to [''z''])) ''id'')
          \<noteq> to_str (get (mk_job ''c'' (edges_to [''z''])) ''id'')"
    by (simp add: plan_defs)
qed

section \<open>A target with the name of an inherited member\<close>

text \<open>
  One step with the id \<open>a\<close> and the string-form \<^verbatim>\<open>next: 'toString'\<close>. No step has the
  id \<open>toString\<close>.
\<close>

definition plan_inherited_target :: jsval where
  "plan_inherited_target = mk_plan [] [mk_job ''a'' (JStr ''toString'')]"

text \<open>
  Plans where an edge meets an inherited member: \<open>toString\<close> is a declared step and the
  target of \<open>a\<close> and \<open>b\<close>; \<open>valueOf\<close> is a declared step on a cycle with \<open>a\<close>; and a
  step with the id \<open>constructor\<close> has a target. Each time a node is needed for the
  name, \<open>ensureModel\<close> finds the inherited member, and recording the edge raises a
  \<open>TypeError\<close>.
\<close>

definition plan_inherited_fan_in :: jsval where
  "plan_inherited_fan_in =
     mk_plan [] [mk_job ''toString'' JUndefined, mk_job ''a'' (edges_to [''toString'']),
                 mk_job ''b'' (edges_to [''toString''])]"

definition plan_inherited_cycle :: jsval where
  "plan_inherited_cycle =
     mk_plan [] [mk_job ''a'' (edges_to [''valueOf'']), mk_job ''valueOf'' (edges_to [''a''])]"

definition plan_inherited_source :: jsval where
  "plan_inherited_source =
     mk_plan [] [mk_job ''constructor'' (edges_to [''a'']), mk_job ''a'' JUndefined]"

lemma buildModel_inherited_fan_in: "buildModel plan_inherited_fan_in = ([], Inl TypeError)"
  by (simp add: plan_inherited_fan_in_def plan_defs model_defs Let_def)

lemma buildModel_inherited_cycle: "buildModel plan_inherited_cycle = ([], Inl TypeError)"
  by (simp add: plan_inherited_cycle_def plan_defs model_defs Let_def)

lemma buildModel_inherited_source: "buildModel plan_inherited_source = ([], Inl TypeError)"
  by (simp add: plan_inherited_source_def plan_defs model_defs Let_def)

text \<open>
  C5 (the code departs from the claim). The claim: for a string-form \<^verbatim>\<open>next\<close>,
  \<open>validate\<close> raises \<^verbatim>\<open>Cannot find job: <id>\<close> when the id names no declared step.
  The lookup table of the declared steps is a plain object, and \<^verbatim>\<open>jobIdx['toString']\<close>
  is the function every object inherits: \<open>validateJob\<close> takes it for a step. For the
  plan whose only step is \<^verbatim>\<open>{id: 'a', next: 'toString', expression: '.'}\<close>, within any
  depth of at least one call, \<open>validate\<close> warns that \<open>a\<close> is unreferenced and returns
  \<open>true\<close>.
\<close>

theorem validate_inherited_target_returns_true:
  "map (\<lambda>step. get step ''id'') (plan_steps plan_inherited_target) = [JStr ''a'']
   \<and> map (\<lambda>step. get step ''next'') (plan_steps plan_inherited_target) = [JStr ''toString'']
   \<and> validate (Suc depth) plan_inherited_target
       = ([''[Validation Warning]: Unreferenced step detected: a''], Some (Inr True))"
  by (simp add: validate_def plan_inherited_target_def plan_defs schema_defs model_defs assert_defs
      Let_def)

section \<open>The order of the checks\<close>



































definition model_a_b :: Model where
  "model_a_b =
     [(''a'', \<lparr> up = [], down = [''b''] \<rparr>), (''b'', \<lparr> up = [''a''], down = [] \<rparr>)]"













section \<open>The schema check\<close>

text \<open>
  Schema conformance as the specification words it: every recognized field has an
  acceptable type or shape (names of at least 3 characters, non-negative timeouts), and
  every violation in the whole plan is listed. Said field by field: a field is a text, a
  text of a least length, a number with a least value, a flag, a reference to the next
  steps (the id of a step, or a mapping from ids to anything) or anything at all; every
  field may be absent. \<open>field_violation\<close> is the message for a value that does not
  meet the demand.
\<close>

datatype field_kind =
    Text
  | Text_min nat string
  | Number_min int string
  | Flag
  | Next_ref
  | Anything

definition wrong_type :: "string \<Rightarrow> jsval \<Rightarrow> string" where
  "wrong_type expected v =
     (if v = JUndefined then ''Required'' else ''Expected '' @ expected @ '', received '' @ parsed_type v)"

fun demand :: "field_kind \<Rightarrow> jsval \<Rightarrow> string option" where
  "demand Text v = (case v of JStr s \<Rightarrow> None | _ \<Rightarrow> Some (wrong_type ''string'' v))"
| "demand (Text_min n msg) v =
     (case v of JStr s \<Rightarrow> if length s < n then Some msg else None | _ \<Rightarrow> Some (wrong_type ''string'' v))"
| "demand (Number_min lo msg) v =
     (case v of JNum x \<Rightarrow> if x < lo then Some msg else None | _ \<Rightarrow> Some (wrong_type ''number'' v))"
| "demand Flag v = (case v of JBool b \<Rightarrow> None | _ \<Rightarrow> Some (wrong_type ''boolean'' v))"
| "demand Next_ref v = (case v of JStr s \<Rightarrow> None | JObj edges \<Rightarrow> None | _ \<Rightarrow> Some ''Invalid input'')"
| "demand Anything v = None"

definition field_violation :: "field_kind \<Rightarrow> jsval \<Rightarrow> string option" where
  "field_violation kind v = (if v = JUndefined then None else demand kind v)"

definition option_fields :: "(string \<times> field_kind) list" where
  "option_fields =
     [ (''timeout'', Number_min 0 ''Timeout must be a non-negative number''),
       (''stepTimeout'', Number_min 0 ''Step timeout must be a non-negative number''),
       (''start'', Text),
       (''end'', Text),
       (''sanitize'', Flag) ]"

definition step_fields :: "(string \<times> field_kind) list" where
  "step_fields =
     [ (''id'', Text),
       (''name'', Text_min 3 ''Name must be at least 3 characters long''),
       (''next'', Next_ref),
       (''previous'', Anything),
       (''adaptor'', Text_min 3 ''Adaptor must be at least 3 characters long''),
       (''expression'', Text),
       (''state'', Anything),
       (''configuration'', Anything),
       (''linker'', Anything) ]"

text \<open>
  The violations of a plan, each with the path of the field and the message, in the
  order of the plan: those of the options, then those of every step. A plan must be an
  object with the objects \<open>options\<close> and \<open>workflow\<close>, the latter with the array
  \<open>steps\<close> of objects.
\<close>

definition field_lines :: "string \<Rightarrow> (string \<times> field_kind) list \<Rightarrow> jsval \<Rightarrow> (string \<times> string) list" where
  "field_lines at shape obj =
     concat (map (\<lambda>(f, kind). case field_violation kind (get obj f) of
                                  None \<Rightarrow> []
                                | Some msg \<Rightarrow> [(at @ ''.'' @ f, msg)]) shape)"

definition step_lines :: "nat \<Rightarrow> jsval \<Rightarrow> (string \<times> string) list" where
  "step_lines i step =
     (case step of
        JObj fs \<Rightarrow> field_lines (''workflow.steps.'' @ string_of_nat i) step_fields step
      | _ \<Rightarrow> [(''workflow.steps.'' @ string_of_nat i, wrong_type ''object'' step)])"

definition violations :: "jsval \<Rightarrow> (string \<times> string) list" where
  "violations plan =
     (case plan of
        JObj kvs \<Rightarrow>
          (case get plan ''options'' of
             JObj os \<Rightarrow> field_lines ''options'' option_fields (JObj os)
           | v \<Rightarrow> [(''options'', wrong_type ''object'' v)])
          @ (case get plan ''workflow'' of
               JObj ws \<Rightarrow>
                 (case get (JObj ws) ''steps'' of
                    JArr steps \<Rightarrow> concat (map (\<lambda>(i, step). step_lines i step) (enumerate 0 steps))
                  | v \<Rightarrow> [(''workflow.steps'', wrong_type ''array'' v)])
             | v \<Rightarrow> [(''workflow'', wrong_type ''object'' v)])
      | v \<Rightarrow> [([], wrong_type ''object'' v)])"

text \<open>
  The line of the error message for an issue, as \<open>formatZodErrors\<close> and
  \<open>formattedErrorsToString\<close> make it, and the schema of a field of each kind, as
  \<^verbatim>\<open>validate-plan.ts\<close> declares it.
\<close>

definition issue_line :: "issue \<Rightarrow> string \<times> string" where
  "issue_line e = (join ''.'' (map path_elem_str (issue_path e)), issue_message e)"

fun schema_of :: "field_kind \<Rightarrow> schema" where
  "schema_of Text = z_optional z_string"
| "schema_of (Text_min n msg) = z_optional (z_string_min n msg)"
| "schema_of (Number_min lo msg) = z_optional (z_number_min lo msg)"
| "schema_of Flag = z_optional z_boolean"
| "schema_of Next_ref = z_optional (z_union [z_string, z_record z_string z_any])"
| "schema_of Anything = z_optional z_any"

lemma record_of_anything: "z_record z_string z_any q (JObj edges) = []"
  by (induction edges) (auto simp: z_record_def z_string_def z_any_def)

lemma invalid_type_line:
  "issue_line (invalid_type expected p v) = (join ''.'' (map path_elem_str p), wrong_type expected v)"
  by (simp add: issue_line_def invalid_type_def wrong_type_def)

lemma made_issue_line:
  "issue_line \<lparr> issue_code = c, issue_message = m, issue_path = p \<rparr> = (join ''.'' (map path_elem_str p), m)"
  by (simp add: issue_line_def)

lemma schema_of_lines:
  "map issue_line (schema_of kind p v) =
     (case field_violation kind v of
        None \<Rightarrow> []
      | Some msg \<Rightarrow> [(join ''.'' (map path_elem_str p), msg)])"
proof (cases "v = JUndefined")
  case True
  then show ?thesis
    by (cases kind) (simp_all add: z_optional_def field_violation_def)
next
  case False
  show ?thesis
  proof (cases kind)
    case Text
    with False show ?thesis
      by (cases v) (simp_all add: z_optional_def field_violation_def z_string_def invalid_type_line)
  next
    case (Text_min n msg)
    with False show ?thesis
      by (cases v) (simp_all add: z_optional_def field_violation_def z_string_min_def invalid_type_line
          made_issue_line)
  next
    case (Number_min lo msg)
    with False show ?thesis
      by (cases v) (simp_all add: z_optional_def field_violation_def z_number_min_def invalid_type_line
          made_issue_line)
  next
    case Flag
    with False show ?thesis
      by (cases v) (simp_all add: z_optional_def field_violation_def z_boolean_def invalid_type_line)
  next
    case Next_ref
    with False show ?thesis
      by (cases v)
        (simp_all add: z_optional_def field_violation_def z_union_def z_string_def z_record_def
          z_any_def made_issue_line invalid_type_line)
  next
    case Anything
    with False show ?thesis
      by (simp add: z_optional_def field_violation_def z_any_def)
  qed
qed

lemma join_snoc: "xs \<noteq> [] \<Longrightarrow> join sep (xs @ [x]) = join sep xs @ sep @ x"
  by (induction sep xs rule: join.induct) simp_all

lemma object_lines:
  assumes "p \<noteq> []"
  shows "map issue_line (z_object (map (\<lambda>(f, kind). (f, schema_of kind)) shape) p (JObj kvs))
           = field_lines (join ''.'' (map path_elem_str p)) shape (JObj kvs)"
proof -
  have line: "map issue_line (schema_of kind (p @ [PKey f]) v) =
                (case field_violation kind v of
                   None \<Rightarrow> []
                 | Some msg \<Rightarrow> [(join ''.'' (map path_elem_str p) @ ''.'' @ f, msg)])" for f kind v
    using assms by (simp add: schema_of_lines join_snoc split: option.split)
  have "map issue_line (concat (map (\<lambda>(f, kind). schema_of kind (p @ [PKey f]) (get (JObj kvs) f)) shape))
          = concat (map (\<lambda>(f, kind). case field_violation kind (get (JObj kvs) f) of
                                  None \<Rightarrow> []
                                | Some msg \<Rightarrow> [(join ''.'' (map path_elem_str p) @ ''.'' @ f, msg)]) shape)"
    by (induction shape) (auto simp: line simp del: get.simps)
  then show ?thesis
    by (simp add: z_object_def field_lines_def comp_def case_prod_unfold del: get.simps)
qed

lemma stepSchema_fields: "stepSchema = z_object (map (\<lambda>(f, kind). (f, schema_of kind)) step_fields)"
  by (simp add: stepSchema_def step_fields_def)

lemma step_schema_lines:
  "map issue_line (stepSchema [PKey ''workflow'', PKey ''steps'', PIndex i] step) = step_lines i step"
proof (cases "\<exists>fs. step = JObj fs")
  case True
  then obtain fs where "step = JObj fs" by blast
  then show ?thesis
    using object_lines [of "[PKey ''workflow'', PKey ''steps'', PIndex i]" step_fields fs]
    by (simp add: stepSchema_fields step_lines_def)
next
  case False
  then show ?thesis
    by (cases step) (simp_all add: stepSchema_def z_object_def step_lines_def invalid_type_line)
qed

lemma steps_schema_lines:
  "map issue_line (z_array stepSchema [PKey ''workflow'', PKey ''steps''] v) =
     (case v of
        JArr steps \<Rightarrow> concat (map (\<lambda>(i, step). step_lines i step) (enumerate 0 steps))
      | _ \<Rightarrow> [(''workflow.steps'', wrong_type ''array'' v)])"
proof (cases "\<exists>steps. v = JArr steps")
  case True
  then obtain steps where v: "v = JArr steps" by blast
  have "map issue_line (concat (map (\<lambda>(i, x). stepSchema ([PKey ''workflow'', PKey ''steps''] @ [PIndex i]) x) xs))
          = concat (map (\<lambda>(i, step). step_lines i step) xs)" for xs
    by (induction xs) (auto simp: step_schema_lines)
  then show ?thesis
    by (simp add: v z_array_def)
next
  case False
  then show ?thesis
    by (cases v) (simp_all add: z_array_def invalid_type_line)
qed

lemma options_schema_lines:
  "map issue_line
     (z_object (map (\<lambda>(f, kind). (f, schema_of kind)) option_fields) [PKey ''options''] v) =
     (case v of
        JObj os \<Rightarrow> field_lines ''options'' option_fields (JObj os)
      | _ \<Rightarrow> [(''options'', wrong_type ''object'' v)])"
proof (cases "\<exists>os. v = JObj os")
  case True
  then obtain os where "v = JObj os" by blast
  then show ?thesis
    using object_lines [of "[PKey ''options'']" option_fields os] by simp
next
  case False
  then show ?thesis
    by (cases v) (simp_all add: z_object_def invalid_type_line)
qed

lemma workflow_schema_lines:
  "map issue_line (z_object [(''steps'', z_array stepSchema)] [PKey ''workflow''] v) =
     (case v of
        JObj ws \<Rightarrow>
          (case get (JObj ws) ''steps'' of
             JArr steps \<Rightarrow> concat (map (\<lambda>(i, step). step_lines i step) (enumerate 0 steps))
           | u \<Rightarrow> [(''workflow.steps'', wrong_type ''array'' u)])
      | _ \<Rightarrow> [(''workflow'', wrong_type ''object'' v)])"
proof (cases "\<exists>ws. v = JObj ws")
  case True
  then obtain ws where v: "v = JObj ws" by blast
  have "map issue_line (z_object [(''steps'', z_array stepSchema)] [PKey ''workflow''] (JObj ws))
          = map issue_line (z_array stepSchema [PKey ''workflow'', PKey ''steps''] (get (JObj ws) ''steps''))"
    by (simp add: z_object_def del: get.simps)
  then show ?thesis
    by (simp add: v steps_schema_lines del: get.simps split: jsval.split)
next
  case False
  then show ?thesis
    by (cases v) (simp_all add: z_object_def invalid_type_line)
qed

lemma executionPlanSchema_fields:
  "executionPlanSchema =
     z_object
       [ (''options'', z_object (map (\<lambda>(f, kind). (f, schema_of kind)) option_fields)),
         (''workflow'', z_object [(''steps'', z_array stepSchema)]) ]"
  by (simp add: executionPlanSchema_def option_fields_def)

lemma schema_lines: "map issue_line (executionPlanSchema [] plan) = violations plan"
proof (cases "\<exists>kvs. plan = JObj kvs")
  case True
  then obtain kvs where plan: "plan = JObj kvs" by blast
  have "executionPlanSchema [] (JObj kvs) =
          z_object (map (\<lambda>(f, kind). (f, schema_of kind)) option_fields) [PKey ''options'']
            (get (JObj kvs) ''options'')
          @ z_object [(''steps'', z_array stepSchema)] [PKey ''workflow''] (get (JObj kvs) ''workflow'')"
    unfolding executionPlanSchema_fields
    by (simp add: z_object_def [of "[(''options'', _), _]"] del: get.simps)
  then show ?thesis
    by (simp add: plan violations_def options_schema_lines workflow_schema_lines del: get.simps
        split: jsval.split)
next
  case False
  then show ?thesis
    by (cases plan)
      (simp_all add: executionPlanSchema_def z_object_def violations_def invalid_type_line)
qed

text \<open>
  The step and the plan of the repository's test
  \<^verbatim>\<open>throws error for step schema with invalid data\<close>, and a plan with violations in its
  options and in two steps, one of which is a number.
\<close>

definition invalidStep :: jsval where
  "invalidStep =
     JObj [(''id'', JStr ''step1''), (''name'', JStr ''St''),
           (''next'', JObj [(''step2'', JStr ''invalid'')]), (''adaptor'', JStr ''Ad''),
           (''expression'', JNum 123)]"

definition plan_invalid_step :: jsval where
  "plan_invalid_step = mk_plan [] [invalidStep]"

definition plan_many_violations :: jsval where
  "plan_many_violations =
     mk_plan [(''timeout'', JNum (- 5)), (''start'', JNum 7), (''sanitize'', JStr ''yes'')]
       [JObj [(''id'', JNum 1), (''name'', JStr ''St''), (''next'', JNum 5)], JNum 3]"

lemmas violation_defs =
  violations_def step_lines_def field_lines_def field_violation_def wrong_type_def option_fields_def
  step_fields_def

lemma violations_invalid_step:
  "violations plan_invalid_step =
     [(''workflow.steps.0.name'', ''Name must be at least 3 characters long''),
      (''workflow.steps.0.adaptor'', ''Adaptor must be at least 3 characters long''),
      (''workflow.steps.0.expression'', ''Expected string, received number'')]"
  by (simp add: plan_invalid_step_def invalidStep_def plan_defs violation_defs
      string_of_nat.simps digit_char_def)

lemma violations_many:
  "violations plan_many_violations =
     [(''options.timeout'', ''Timeout must be a non-negative number''),
      (''options.start'', ''Expected string, received number''),
      (''options.sanitize'', ''Expected boolean, received string''),
      (''workflow.steps.0.id'', ''Expected string, received number''),
      (''workflow.steps.0.name'', ''Name must be at least 3 characters long''),
      (''workflow.steps.0.next'', ''Invalid input''),
      (''workflow.steps.1'', ''Expected object, received number'')]"
  by (simp add: plan_many_violations_def plan_defs violation_defs string_of_nat.simps digit_char_def)

text \<open>
  C7. The schema check comes before every other check and does not stop at the first
  violation: the issues the schema reports are the violations of the plan, every one of
  them, in order; and when there is one, \<open>validate\<close> raises one \<open>ValidationError\<close>,
  whatever the other checks would say, prints no warning, and the message has one line
  \<^verbatim>\<open><path>: <message>\<close> for each violation. A plan without a violation passes the
  schema check.
\<close>

theorem schema_violations_all_reported:
  "map issue_line (executionPlanSchema [] plan) = violations plan
   \<and> (violations plan \<noteq> []
        \<longrightarrow> validate depth plan =
              ([], Some (Inl (ValidationError
                 (join [CHR 0x0A] (map (\<lambda>(path, message). path @ '': '' @ message) (violations plan)))))))
   \<and> (violations plan = [] \<longrightarrow> executionPlanSchema [] plan = [])"
proof (intro conjI impI)
  show lines: "map issue_line (executionPlanSchema [] plan) = violations plan"
    by (rule schema_lines)
  {
    assume "violations plan = []"
    with lines show "executionPlanSchema [] plan = []" by simp
  }
  assume "violations plan \<noteq> []"
  with lines obtain issue issues where issues: "executionPlanSchema [] plan = issue # issues"
    by (cases "executionPlanSchema [] plan") auto
  have "map (\<lambda>(path, message). path @ '': '' @ message) (violations plan)
          = map (\<lambda>e. join ''.'' (map path_elem_str (issue_path e)) @ '': '' @ issue_message e)
              (executionPlanSchema [] plan)"
    by (simp add: lines [symmetric] issue_line_def comp_def)
  then show "validate depth plan =
              ([], Some (Inl (ValidationError
                 (join [CHR 0x0A] (map (\<lambda>(path, message). path @ '': '' @ message) (violations plan))))))"
    by (simp add: validate_def issues formattedErrorsToString_def formatZodErrors_def comp_def)
qed

theorem schema_violations_witness:
  "violations plan_invalid_step \<noteq> []
   \<and> validate 100 plan_invalid_step =
     ([], Some (Inl (ValidationError
        (''workflow.steps.0.name: Name must be at least 3 characters long'' @ [CHR 0x0A]
         @ ''workflow.steps.0.adaptor: Adaptor must be at least 3 characters long'' @ [CHR 0x0A]
         @ ''workflow.steps.0.expression: Expected string, received number''))))
   \<and> violations plan_many_violations \<noteq> []
   \<and> validate 100 plan_many_violations =
     ([], Some (Inl (ValidationError
        (''options.timeout: Timeout must be a non-negative number'' @ [CHR 0x0A]
         @ ''options.start: Expected string, received number'' @ [CHR 0x0A]
         @ ''options.sanitize: Expected boolean, received string'' @ [CHR 0x0A]
         @ ''workflow.steps.0.id: Expected string, received number'' @ [CHR 0x0A]
         @ ''workflow.steps.0.name: Name must be at least 3 characters long'' @ [CHR 0x0A]
         @ ''workflow.steps.0.next: Invalid input'' @ [CHR 0x0A]
         @ ''workflow.steps.1: Expected object, received number''))))
   \<and> violations (mk_plan [] []) = []
   \<and> executionPlanSchema [] (mk_plan [] []) = []"
proof -
  note test = schema_violations_all_reported [where plan = plan_invalid_step and depth = 100]
  note many = schema_violations_all_reported [where plan = plan_many_violations and depth = 100]
  note empty = schema_violations_all_reported [where plan = "mk_plan [] []" and depth = 100]
  have v1: "violations plan_invalid_step \<noteq> []"
    by (simp add: violations_invalid_step)
  have v2: "violations plan_many_violations \<noteq> []"
    by (simp add: violations_many)
  have v3: "violations (mk_plan [] []) = []"
    by (simp add: plan_defs violation_defs)
  from test [THEN conjunct2, THEN conjunct1, THEN mp, OF v1]
  have r1: "validate 100 plan_invalid_step =
     ([], Some (Inl (ValidationError
        (''workflow.steps.0.name: Name must be at least 3 characters long'' @ [CHR 0x0A]
         @ ''workflow.steps.0.adaptor: Adaptor must be at least 3 characters long'' @ [CHR 0x0A]
         @ ''workflow.steps.0.expression: Expected string, received number''))))"
    by (simp add: violations_invalid_step)
  from many [THEN conjunct2, THEN conjunct1, THEN mp, OF v2]
  have r2: "validate 100 plan_many_violations =
     ([], Some (Inl (ValidationError
        (''options.timeout: Timeout must be a non-negative number'' @ [CHR 0x0A]
         @ ''options.start: Expected string, received number'' @ [CHR 0x0A]
         @ ''options.sanitize: Expected boolean, received string'' @ [CHR 0x0A]
         @ ''workflow.steps.0.id: Expected string, received number'' @ [CHR 0x0A]
         @ ''workflow.steps.0.name: Name must be at least 3 characters long'' @ [CHR 0x0A]
         @ ''workflow.steps.0.next: Invalid input'' @ [CHR 0x0A]
         @ ''workflow.steps.1: Expected object, received number''))))"
    by (simp add: violations_many)
  from empty [THEN conjunct2, THEN conjunct2, THEN mp, OF v3]
  have r3: "executionPlanSchema [] (mk_plan [] []) = []" .
  from v1 r1 v2 r2 v3 r3 show ?thesis
    by (intro conjI)
qed

section \<open>The values of a mapping-form next\<close>

text \<open>
  Two plans \<open>a \<rightarrow> b\<close> whose edge has a value that is neither \<open>true\<close> nor a
  condition: the string \<^verbatim>\<open>'invalid'\<close> and the number \<open>42\<close>. \<open>path_depth s d\<close> says
  that the schema \<open>s\<close> reports issues at most \<open>d\<close> levels below the value it is given.
\<close>

lemma next_mapping_accepted:
  "z_optional (z_union [z_string, z_record z_string z_any]) q (JObj edges) = []"
  by (simp add: z_optional_def z_union_def record_of_anything)

lemma optional_string_path: "i \<in> set (z_optional z_string q v) \<Longrightarrow> issue_path i = q"
  by (cases v) (auto simp: z_optional_def z_string_def invalid_type_def)

lemma optional_string_min_path: "i \<in> set (z_optional (z_string_min n msg) q v) \<Longrightarrow> issue_path i = q"
  by (cases v) (auto simp: z_optional_def z_string_min_def invalid_type_def split: if_splits)

lemma optional_any: "z_optional z_any q v = []"
  by (simp add: z_optional_def z_any_def)

definition plan_next_invalid :: jsval where
  "plan_next_invalid = mk_plan [] [mk_job ''a'' (JObj [(''b'', JStr ''invalid'')]), mk_job ''b'' JUndefined]"

definition plan_next_number :: jsval where
  "plan_next_number = mk_plan [] [mk_job ''a'' (JObj [(''b'', JNum 42)]), mk_job ''b'' JUndefined]"

definition path_depth :: "schema \<Rightarrow> nat \<Rightarrow> bool" where
  "path_depth s d = (\<forall>q v i. i \<in> set (s q v) \<longrightarrow> length (issue_path i) \<le> length q + d)"

lemma path_depth_mono: "path_depth s d \<Longrightarrow> d \<le> d' \<Longrightarrow> path_depth s d'"
  unfolding path_depth_def by (meson add_le_cancel_left le_trans)

lemma path_depth_any: "path_depth z_any 0"
  by (simp add: path_depth_def z_any_def)

lemma path_depth_string: "path_depth z_string 0"
  by (auto simp: path_depth_def z_string_def invalid_type_def split: jsval.splits)

lemma path_depth_string_min: "path_depth (z_string_min n msg) 0"
  by (auto simp: path_depth_def z_string_min_def invalid_type_def split: jsval.splits if_splits)

lemma path_depth_number_min: "path_depth (z_number_min lo msg) 0"
  by (auto simp: path_depth_def z_number_min_def invalid_type_def split: jsval.splits if_splits)

lemma path_depth_boolean: "path_depth z_boolean 0"
  by (auto simp: path_depth_def z_boolean_def invalid_type_def split: jsval.splits)

lemma path_depth_optional: "path_depth s d \<Longrightarrow> path_depth (z_optional s) d"
  by (auto simp: path_depth_def z_optional_def)

lemma path_depth_union: "path_depth (z_union options) 0"
  by (auto simp: path_depth_def z_union_def split: if_splits)

lemma path_depth_object:
  assumes "\<And>k s. (k, s) \<in> set shape \<Longrightarrow> path_depth s d"
  shows "path_depth (z_object shape) (Suc d)"
  unfolding path_depth_def
proof (intro allI impI)
  fix q v i
  assume i: "i \<in> set (z_object shape q v)"
  show "length (issue_path i) \<le> length q + Suc d"
  proof (cases "\<exists>kvs. v = JObj kvs")
    case True
    with i obtain k s where "(k, s) \<in> set shape" "i \<in> set (s (q @ [PKey k]) (get v k))"
      by (auto simp: z_object_def simp del: get.simps)
    with assms [of k s] show ?thesis
      by (fastforce simp: path_depth_def)
  next
    case False
    with i have "i = invalid_type ''object'' q v"
      by (cases v) (simp_all add: z_object_def)
    then show ?thesis by (simp add: invalid_type_def)
  qed
qed

lemma path_depth_array:
  assumes "path_depth s d"
  shows "path_depth (z_array s) (Suc d)"
  unfolding path_depth_def
proof (intro allI impI)
  fix q v i
  assume i: "i \<in> set (z_array s q v)"
  show "length (issue_path i) \<le> length q + Suc d"
  proof (cases "\<exists>xs. v = JArr xs")
    case True
    with i obtain j x where "i \<in> set (s (q @ [PIndex j]) x)"
      by (auto simp: z_array_def)
    with assms show ?thesis
      by (fastforce simp: path_depth_def)
  next
    case False
    with i have "i = invalid_type ''array'' q v"
      by (cases v) (simp_all add: z_array_def)
    then show ?thesis by (simp add: invalid_type_def)
  qed
qed

lemmas path_depth_leaf =
  path_depth_any path_depth_string path_depth_string_min path_depth_number_min path_depth_boolean
  path_depth_union

lemma path_depth_step: "path_depth stepSchema 1"
  unfolding stepSchema_def One_nat_def
  by (rule path_depth_object) (auto intro: path_depth_optional path_depth_leaf)

lemma path_depth_plan: "path_depth executionPlanSchema 4"
proof -
  have options: "path_depth
     (z_object
        [ (''timeout'', z_optional (z_number_min 0 ''Timeout must be a non-negative number'')),
          (''stepTimeout'', z_optional (z_number_min 0 ''Step timeout must be a non-negative number'')),
          (''start'', z_optional z_string),
          (''end'', z_optional z_string),
          (''sanitize'', z_optional z_boolean) ]) 3"
    by (rule path_depth_mono [of _ "Suc 0"], rule path_depth_object)
       (auto intro: path_depth_optional path_depth_leaf)
  have "path_depth (z_array stepSchema) (Suc 1)"
    by (rule path_depth_array [OF path_depth_step])
  then have "path_depth (z_object [ (''steps'', z_array stepSchema) ]) (Suc (Suc 1))"
    by (intro path_depth_object) auto
  then have workflow: "path_depth (z_object [ (''steps'', z_array stepSchema) ]) 3"
    by (simp add: numeral_3_eq_3)
  have "path_depth executionPlanSchema (Suc 3)"
    unfolding executionPlanSchema_def
    by (rule path_depth_object) (use options workflow in auto)
  then show ?thesis by (simp add: eval_nat_numeral)
qed


text \<open>
  C10. The step schema does not look at the values of a mapping-form \<^verbatim>\<open>next\<close>: two
  steps that differ only in their mapping-form \<^verbatim>\<open>next\<close> have the same issues; a step
  with a mapping-form \<^verbatim>\<open>next\<close> has no issue at \<^verbatim>\<open>next\<close>; and no plan at all has an
  issue at or below an edge value, \<^verbatim>\<open>workflow.steps.<j>.next.<target>\<close>. The plans
  with \<^verbatim>\<open>next: {b: 'invalid'}\<close> and \<^verbatim>\<open>next: {b: 42}\<close> pass every check.
\<close>

theorem next_values_unconstrained:
  "(get (JObj fs1) ''next'' = JObj edges1 \<and> get (JObj fs2) ''next'' = JObj edges2
      \<and> (\<forall>k. k \<noteq> ''next'' \<longrightarrow> get (JObj fs1) k = get (JObj fs2) k)
     \<longrightarrow> stepSchema p (JObj fs1) = stepSchema p (JObj fs2))
   \<and> (get (JObj fs) ''next'' = JObj edges
     \<longrightarrow> (\<forall>i \<in> set (stepSchema p (JObj fs)). take (Suc (length p)) (issue_path i) \<noteq> p @ [PKey ''next'']))
   \<and> (\<forall>i \<in> set (executionPlanSchema [] plan).
         issue_path i \<noteq> [PKey ''workflow'', PKey ''steps'', PIndex j, PKey ''next'', PKey target] @ rest)
   \<and> validate 100 plan_next_invalid = ([], Some (Inr True))
   \<and> validate 100 plan_next_number = ([], Some (Inr True))"
proof (intro conjI impI)
  assume a: "get (JObj fs1) ''next'' = JObj edges1 \<and> get (JObj fs2) ''next'' = JObj edges2
      \<and> (\<forall>k. k \<noteq> ''next'' \<longrightarrow> get (JObj fs1) k = get (JObj fs2) k)"
  then have same: "get (JObj fs1) k = get (JObj fs2) k" if "k \<noteq> ''next''" for k
    using that by blast
  from a have n1: "get (JObj fs1) ''next'' = JObj edges1" and n2: "get (JObj fs2) ''next'' = JObj edges2"
    by blast+
  show "stepSchema p (JObj fs1) = stepSchema p (JObj fs2)"
    by (simp add: stepSchema_def z_object_def n1 n2 next_mapping_accepted same del: get.simps)
next
  assume n: "get (JObj fs) ''next'' = JObj edges"
  show "\<forall>i \<in> set (stepSchema p (JObj fs)). take (Suc (length p)) (issue_path i) \<noteq> p @ [PKey ''next'']"
  proof
    fix i assume "i \<in> set (stepSchema p (JObj fs))"
    then have "issue_path i \<in> {p @ [PKey ''id''], p @ [PKey ''name''], p @ [PKey ''adaptor''],
                p @ [PKey ''expression'']}"
      by (auto simp: stepSchema_def z_object_def n next_mapping_accepted optional_any
          simp del: get.simps dest!: optional_string_path optional_string_min_path)
    then show "take (Suc (length p)) (issue_path i) \<noteq> p @ [PKey ''next'']"
      by auto
  qed
next
  show "\<forall>i \<in> set (executionPlanSchema [] plan).
         issue_path i \<noteq> [PKey ''workflow'', PKey ''steps'', PIndex j, PKey ''next'', PKey target] @ rest"
  proof
    fix i assume "i \<in> set (executionPlanSchema [] plan)"
    with path_depth_plan have "length (issue_path i) \<le> 4"
      by (fastforce simp: path_depth_def)
    then show "issue_path i \<noteq> [PKey ''workflow'', PKey ''steps'', PIndex j, PKey ''next'', PKey target] @ rest"
      by auto
  qed
next
  have "assertNoCircularReferences 100 model_a_b = Some (Inr ())"
    by code_simp
  moreover have "buildModel plan_next_invalid = ([], Inr model_a_b)"
    by (simp add: plan_next_invalid_def model_a_b_def plan_defs model_defs Let_def)
  ultimately show "validate 100 plan_next_invalid = ([], Some (Inr True))"
    by (simp add: validate_def plan_next_invalid_def plan_defs schema_defs assert_defs
        model_defs model_a_b_def)
next
  have "assertNoCircularReferences 100 model_a_b = Some (Inr ())"
    by code_simp
  moreover have "buildModel plan_next_number = ([], Inr model_a_b)"
    by (simp add: plan_next_number_def model_a_b_def plan_defs model_defs Let_def)
  ultimately show "validate 100 plan_next_number = ([], Some (Inr True))"
    by (simp add: validate_def plan_next_number_def plan_defs schema_defs assert_defs
        model_defs model_a_b_def)
qed


theorem next_values_witness:
  "stepSchema [PKey ''workflow'', PKey ''steps'', PIndex 0] (mk_job ''a'' (JObj [(''b'', JStr ''invalid'')]))
     = stepSchema [PKey ''workflow'', PKey ''steps'', PIndex 0] (mk_job ''a'' (JObj [(''b'', JBool True)]))
   \<and> take 4 [PKey ''workflow'', PKey ''steps'', PIndex 0, PKey ''name'']
       \<noteq> [PKey ''workflow'', PKey ''steps'', PIndex 0, PKey ''next'']
   \<and> [PKey ''workflow'', PKey ''steps'', PIndex 0, PKey ''name'']
       \<noteq> [PKey ''workflow'', PKey ''steps'', PIndex 0, PKey ''next'', PKey ''step2'']
   \<and> \<lparr> issue_code = ''too_small'', issue_message = ''Name must be at least 3 characters long'',
         issue_path = [PKey ''workflow'', PKey ''steps'', PIndex 0, PKey ''name''] \<rparr>
       \<in> set (executionPlanSchema [] plan_invalid_step)
   \<and> get invalidStep ''next'' = JObj [(''step2'', JStr ''invalid'')]"
proof -
  let ?p = "[PKey ''workflow'', PKey ''steps'', PIndex 0]"
  let ?name = "\<lparr> issue_code = ''too_small'', issue_message = ''Name must be at least 3 characters long'',
       issue_path = ?p @ [PKey ''name''] \<rparr>"
  note inst = next_values_unconstrained
    [where ?fs1.0 = "[(''id'', JStr ''a''), (''next'', JObj [(''b'', JStr ''invalid'')]), (''expression'', JStr ''.'')]"
       and ?fs2.0 = "[(''id'', JStr ''a''), (''next'', JObj [(''b'', JBool True)]), (''expression'', JStr ''.'')]"
       and ?edges1.0 = "[(''b'', JStr ''invalid'')]" and ?edges2.0 = "[(''b'', JBool True)]"
       and p = ?p
       and fs = "[(''id'', JStr ''step1''), (''name'', JStr ''St''),
           (''next'', JObj [(''step2'', JStr ''invalid'')]), (''adaptor'', JStr ''Ad''),
           (''expression'', JNum 123)]"
       and edges = "[(''step2'', JStr ''invalid'')]"
       and plan = plan_invalid_step and j = 0 and target = "''step2''" and rest = "[]"]
  have in_step: "?name \<in> set (stepSchema ?p invalidStep)"
    by (simp add: invalidStep_def schema_defs)
  have in_plan: "?name \<in> set (executionPlanSchema [] plan_invalid_step)"
    by (simp add: plan_invalid_step_def invalidStep_def plan_defs schema_defs)
  from inst [THEN conjunct1]
  have first: "stepSchema ?p (mk_job ''a'' (JObj [(''b'', JStr ''invalid'')]))
     = stepSchema ?p (mk_job ''a'' (JObj [(''b'', JBool True)]))"
    by (simp add: mk_job_def)
  from inst [THEN conjunct2, THEN conjunct1] in_step
  have second: "take 4 (?p @ [PKey ''name'']) \<noteq> ?p @ [PKey ''next'']"
    by (simp add: invalidStep_def)
  from inst [THEN conjunct2, THEN conjunct2, THEN conjunct1] in_plan
  have third: "?p @ [PKey ''name''] \<noteq> ?p @ [PKey ''next'', PKey ''step2'']"
    by simp
  have fourth: "get invalidStep ''next'' = JObj [(''step2'', JStr ''invalid'')]"
    by (simp add: invalidStep_def)
  from first second third in_plan fourth show ?thesis
    by simp
qed

section \<open>The error taxonomy of the engine\<close>

text \<open>
  The classes of \<^verbatim>\<open>errors.ts\<close> (src/unnamed/part\_000). An instance is a record of
  its fields. \<open>EngineError\<close> is what the base class initialises (\<open>source\<close>,
  \<open>severity\<close>; \<open>name\<close> and \<open>message\<close> are those of a plain \<^verbatim>\<open>Error\<close> built
  with no argument); each subclass constructor runs the base initialisers first and
  its own field initialisers and body after them, so the later assignment wins.
  A field a class does not declare is \<open>None\<close>.
\<close>

record thrown =
  thrown_message :: string
  thrown_type :: "string option"
  thrown_constructor_name :: string

record engine_error =
  source :: string
  severity :: string
  etype :: "string option"
  name :: string
  message :: string
  duration :: "int option"
  original :: "thrown option"
  subtype :: "string option"
  jobId :: "string option"
  code :: "int option"
  stack_cleared :: bool

definition EngineError :: engine_error where
  "EngineError =
     \<lparr> source = ''engine'', severity = ''-'', etype = None, name = ''Error'', message = [],
       duration = None, original = None, subtype = None, jobId = None, code = None,
       stack_cleared = False \<rparr>"

definition TimeoutError :: "int \<Rightarrow> engine_error" where
  "TimeoutError durationInMs =
     EngineError
       \<lparr> severity := ''kill'', etype := Some ''TimeoutError'', duration := Some durationInMs,
         message :=
           (if durationInMs \<noteq> 0
            then ''Workflow failed to return within '' @ string_of_int durationInMs @ ''ms''
            else ''Workflow failed to return within the specified time limit'') \<rparr>"

definition ExecutionError :: "thrown \<Rightarrow> engine_error" where
  "ExecutionError orig =
     EngineError
       \<lparr> severity := ''exception'', etype := Some ''ExecutionError'', name := ''ExecutionError'',
         original := Some orig, message := thrown_message orig \<rparr>"

definition CompileError :: "thrown \<Rightarrow> string \<Rightarrow> engine_error" where
  "CompileError err job =
     EngineError
       \<lparr> severity := ''crash'', etype := Some ''CompileError'', jobId := Some job,
         message := job @ '': '' @ thrown_message err,
         subtype :=
           Some (case thrown_type err of
                   Some t \<Rightarrow> if t \<noteq> [] then t else thrown_constructor_name err
                 | None \<Rightarrow> thrown_constructor_name err) \<rparr>"

definition AutoinstallError :: "string \<Rightarrow> thrown \<Rightarrow> engine_error" where
  "AutoinstallError specifier err =
     EngineError
       \<lparr> severity := ''exception'', etype := Some ''AutoinstallError'', name := ''AutoinstallError'',
         message := ''Error installing '' @ specifier @ '': '' @ thrown_message err \<rparr>"

definition OOMError :: engine_error where
  "OOMError =
     EngineError
       \<lparr> severity := ''kill'', etype := Some ''OOMError'', name := ''OOMError'',
         message := ''Run exceeded maximum memory usage'' \<rparr>"

definition ExitError :: "int \<Rightarrow> engine_error" where
  "ExitError c =
     EngineError
       \<lparr> severity := ''crash'', etype := Some ''ExitError'', name := ''ExitError'', code := Some c,
         message := ''Process exited with code: '' @ string_of_int c, stack_cleared := True \<rparr>"

section \<open>Severity of each failure kind\<close>

text \<open>
  C9. Every failure kind carries its severity as a field of the error value, whatever
  the constructor's arguments (and so whatever the message): \<open>TimeoutError\<close> and
  \<open>OOMError\<close> are \<open>kill\<close>, \<open>ExitError\<close> and \<open>CompileError\<close> are \<open>crash\<close>,
  \<open>AutoinstallError\<close> and \<open>ExecutionError\<close> are \<open>exception\<close>.
\<close>

theorem severity_fixed_per_kind:
  "severity (TimeoutError d) = ''kill''
   \<and> severity OOMError = ''kill''
   \<and> severity (ExitError c) = ''crash''
   \<and> severity (CompileError err job) = ''crash''
   \<and> severity (AutoinstallError specifier err') = ''exception''
   \<and> severity (ExecutionError orig) = ''exception''"
  by (simp add: TimeoutError_def OOMError_def ExitError_def CompileError_def
      AutoinstallError_def ExecutionError_def)

section \<open>The lifecycle handlers\<close>

text \<open>
  Modelled from the spec: the workflow state of the engine (\<^verbatim>\<open>WorkflowState\<close> of
  \<^verbatim>\<open>engine-multi/src/types\<close>, not among the sources). The spec gives it an id, a status
  among pending, running, done and error, the start time, the duration, the thread id
  and the result; a field not yet set is \<open>None\<close>.
\<close>

record WorkflowState =
  state_id :: string
  status :: string
  startTime :: "int option"
  duration :: "int option"
  threadId :: "string option"
  result :: "jsval option"

text \<open>
  Modelled from the spec: the outward events and the execution context
  (\<^verbatim>\<open>engine-multi/src/events\<close> and \<^verbatim>\<open>ExecutionContext\<close> of
  \<^verbatim>\<open>engine-multi/src/engine\<close>, not among the sources). An
  event carries the workflow id, the thread id and, for a log, the message, for a
  completion, the final state and the duration. Of the context only the state and
  the events emitted so far matter here; the logger and the worker callback are left out.
\<close>

datatype workflow_event =
    WORKFLOW_START string string
  | WORKFLOW_LOG string string jsval
  | WORKFLOW_COMPLETE string jsval int string

record ExecutionContext =
  state :: WorkflowState
  emitted :: "workflow_event list"

text \<open>
  Modelled from the spec: \<^verbatim>\<open>workflowStart\<close> of \<^verbatim>\<open>engine-multi/src/api/lifecycle\<close>, which
  is not among the sources (its test and its caller are). On the start event
  \<open>(workflowId, threadId)\<close> it sets the status to running, the start time to the
  clock's reading \<open>now\<close>, the duration to \<open>-1\<close> and the thread id to the event's, and
  emits the start event with the same two fields.
\<close>

definition workflowStart :: "int \<Rightarrow> ExecutionContext \<Rightarrow> string \<times> string \<Rightarrow> ExecutionContext" where
  "workflowStart now ctx event =
     (case event of (workflowId, thread) \<Rightarrow>
        ctx
          \<lparr> state := (state ctx)
               \<lparr> status := ''running'', startTime := Some now, duration := Some (- 1),
                 threadId := Some thread \<rparr>,
            emitted := emitted ctx @ [WORKFLOW_START workflowId thread] \<rparr>)"

text \<open>
  Modelled from the spec: \<^verbatim>\<open>log\<close> of the same file. It changes no state and emits the log
  event with the workflow id, the thread id and the fields of the message.
\<close>

definition log :: "ExecutionContext \<Rightarrow> string \<times> string \<times> jsval \<Rightarrow> ExecutionContext" where
  "log ctx event =
     (case event of (workflowId, thread, msg) \<Rightarrow>
        ctx \<lparr> emitted := emitted ctx @ [WORKFLOW_LOG workflowId thread msg] \<rparr>)"

text \<open>
  Modelled from the spec: \<^verbatim>\<open>workflowComplete\<close> of the same file. On the complete event
  \<open>(workflowId, threadId, state)\<close> it requires the start time to be set (the spec says
  nothing of the other case, which is \<open>None\<close> here), computes the duration as the clock's
  reading minus the start time, sets the status to done and the result to the event's
  state, and emits the completion event with the workflow id, the state, the duration
  and the thread id of the event.
\<close>

definition workflowComplete ::
  "int \<Rightarrow> ExecutionContext \<Rightarrow> string \<times> string \<times> jsval \<Rightarrow> ExecutionContext option" where
  "workflowComplete now ctx event =
     (case event of (workflowId, thread, final) \<Rightarrow>
        (case startTime (state ctx) of
           None \<Rightarrow> None
         | Some started \<Rightarrow>
             Some (ctx
               \<lparr> state := (state ctx)
                    \<lparr> status := ''done'', duration := Some (now - started), result := Some final \<rparr>,
                 emitted := emitted ctx @ [WORKFLOW_COMPLETE workflowId final (now - started) thread] \<rparr>)))"

text \<open>A context before any event, for the workflow \<open>a\<close>.\<close>

definition fresh_context :: ExecutionContext where
  "fresh_context =
     \<lparr> state = \<lparr> state_id = ''a'', status = ''pending'', startTime = None, duration = None,
                 threadId = None, result = None \<rparr>,
       emitted = [] \<rparr>"

text \<open>
  C8. After \<open>workflowStart\<close> on the event \<open>(workflowId, thread)\<close> the status is running,
  the duration \<open>-1\<close>, the thread id that of the event, and the start time is set. A
  \<open>workflowComplete\<close> that follows at a later reading of the clock, with the state
  \<open>final\<close>, succeeds, sets the status to done, the result to \<open>final\<close> and a duration
  above \<open>0\<close>, and emits the completion event with the event's workflow id, the state,
  that duration and the event's thread id. The witness takes the state \<^verbatim>\<open>{a: 777}\<close> and
  the events of the spec's example.
\<close>

theorem start_then_complete:
  "status (state (workflowStart now ctx (workflowId, thread))) = ''running''
   \<and> duration (state (workflowStart now ctx (workflowId, thread))) = Some (- 1)
   \<and> threadId (state (workflowStart now ctx (workflowId, thread))) = Some thread
   \<and> startTime (state (workflowStart now ctx (workflowId, thread))) = Some now
   \<and> (now < later \<longrightarrow>
        (\<exists>ctx' d.
           workflowComplete later (workflowStart now ctx (workflowId, thread)) (workflowId', thread', final)
             = Some ctx'
           \<and> status (state ctx') = ''done''
           \<and> result (state ctx') = Some final
           \<and> duration (state ctx') = Some d \<and> 0 < d
           \<and> emitted ctx' =
               emitted ctx @ [WORKFLOW_START workflowId thread, WORKFLOW_COMPLETE workflowId' final d thread']))"
  by (simp add: workflowStart_def workflowComplete_def)

theorem start_then_complete_witness:
  "(0::int) < 1000
   \<and> (\<exists>ctx' d.
         workflowComplete 1000 (workflowStart 0 fresh_context (''a'', ''123''))
             (''a'', ''1'', JObj [(''a'', JNum 777)])
           = Some ctx'
         \<and> status (state ctx') = ''done''
         \<and> result (state ctx') = Some (JObj [(''a'', JNum 777)])
         \<and> duration (state ctx') = Some d \<and> 0 < d
         \<and> emitted ctx' =
             emitted fresh_context
             @ [WORKFLOW_START ''a'' ''123'', WORKFLOW_COMPLETE ''a'' (JObj [(''a'', JNum 777)]) d ''1''])"
  using start_then_complete
    [where now = 0 and later = 1000 and ctx = fresh_context and workflowId = "''a''"
       and thread = "''123''" and workflowId' = "''a''" and thread' = "''1''"
       and final = "JObj [(''a'', JNum 777)]"]
  by simp

end
